theory Spec2Isabelle
  imports Complex_Main "HOL-Library.Multiset"
begin

section \<open>JavaScript values read by the component\<close>

text \<open>
  The optional fields of a contact (\<open>birthday\<close>, \<open>email\<close>, \<open>phone\<close>, \<open>notes\<close>) hold
  \<open>undefined\<close>, \<open>null\<close> or a string. \<open>truthy\<close> is JavaScript's ToBoolean on these
  values: the guard \<open>!person.birthday\<close> is \<open>\<not> truthy (birthday person)\<close>.
\<close>

datatype jsval = Undefined | Null | Str string

fun truthy :: "jsval \<Rightarrow> bool" where
  "truthy Undefined = False"
| "truthy Null = False"
| "truthy (Str s) = (s \<noteq> [])"

text \<open>
  The numbers the component computes are integers or \<open>NaN\<close>. A comparison with
  \<open>NaN\<close> is false (\<open>num_le\<close> is JavaScript's \<open><=\<close>).
\<close>

datatype jsnum = NaN | Num int

fun num_le :: "jsnum \<Rightarrow> jsnum \<Rightarrow> bool" where
  "num_le (Num a) (Num b) = (a \<le> b)"
| "num_le _ _ = False"

section \<open>The dayjs date object\<close>

text \<open>
  A dayjs object is immutable and is either invalid or a local calendar date with a time
  of day. \<open>month_of\<close> is the calendar month 1..12 (dayjs keeps \<open>$M\<close> = month - 1),
  \<open>ms_of_day\<close> the milliseconds since local midnight (dayjs's \<open>$H\<close>, \<open>$m\<close>, \<open>$s\<close>,
  \<open>$ms\<close> in one number). Local time is taken in a zone of fixed offset, so that
  differences of instants are differences of local times.
\<close>

record datetime =
  year_of :: int
  month_of :: int
  date_of :: int
  ms_of_day :: int

datatype Dayjs = Invalid | Valid datetime

definition MILLISECONDS_A_DAY :: int where
  "MILLISECONDS_A_DAY = 86400000"

definition isLeapYear :: "int \<Rightarrow> bool" where
  "isLeapYear y = ((y mod 4 = 0 \<and> y mod 100 \<noteq> 0) \<or> y mod 400 = 0)"

definition daysInMonth :: "int \<Rightarrow> int \<Rightarrow> int" where
  "daysInMonth y m =
     (if m = 2 then (if isLeapYear y then 29 else 28)
      else if m = 4 \<or> m = 6 \<or> m = 9 \<or> m = 11 then 30 else 31)"

text \<open>A date of the calendar with a time inside the day.\<close>

definition wf_datetime :: "datetime \<Rightarrow> bool" where
  "wf_datetime d =
     (1 \<le> month_of d \<and> month_of d \<le> 12 \<and>
      1 \<le> date_of d \<and> date_of d \<le> daysInMonth (year_of d) (month_of d) \<and>
      0 \<le> ms_of_day d \<and> ms_of_day d < MILLISECONDS_A_DAY)"

text \<open>
  The time value of a date, as ECMAScript's \<open>MakeDate (MakeDay y m d) time\<close> computes it:
  days since 1970-01-01 times the milliseconds of a day, plus the time of day.
\<close>

definition DayFromYear :: "int \<Rightarrow> int" where
  "DayFromYear y =
     365 * (y - 1970) + (y - 1969) div 4 - (y - 1901) div 100 + (y - 1601) div 400"

definition daysBeforeMonth :: "int \<Rightarrow> int \<Rightarrow> int" where
  "daysBeforeMonth y m =
     (if m \<le> 1 then 0 else if m = 2 then 31
      else (if isLeapYear y then 1 else 0) +
        (if m = 3 then 59 else if m = 4 then 90 else if m = 5 then 120
         else if m = 6 then 151 else if m = 7 then 181 else if m = 8 then 212
         else if m = 9 then 243 else if m = 10 then 273 else if m = 11 then 304
         else 334))"

definition valueOf :: "datetime \<Rightarrow> int" where
  "valueOf d =
     (DayFromYear (year_of d) + daysBeforeMonth (year_of d) (month_of d) + (date_of d - 1))
       * MILLISECONDS_A_DAY + ms_of_day d"

text \<open>
  \<open>dayjs(x)\<close>: \<open>undefined\<close> is the current time, \<open>null\<close> is invalid, a string is
  parsed. The string parser belongs to the library; it is the parameter \<open>parse\<close>, and
  the theorems below hold for every parser.
\<close>

fun dayjs :: "(string \<Rightarrow> Dayjs) \<Rightarrow> datetime \<Rightarrow> jsval \<Rightarrow> Dayjs" where
  "dayjs parse now Undefined = Valid now"
| "dayjs parse now Null = Invalid"
| "dayjs parse now (Str s) = parse s"

text \<open>
  \<open>d.year(y)\<close> (dayjs \<open>$set\<close> for the unit year): a new object with the year replaced
  and the day of the month clamped to the length of the month in that year, so Feb 29
  becomes Feb 28 in a year that is not a leap year. An invalid date stays invalid.
\<close>

fun set_year :: "Dayjs \<Rightarrow> int \<Rightarrow> Dayjs" where
  "set_year Invalid y = Invalid"
| "set_year (Valid d) y =
     Valid (d\<lparr>year_of := y, date_of := min (date_of d) (daysInMonth y (month_of d))\<rparr>)"

text \<open>\<open>d.add(n, 'year')\<close> is \<open>d.set('year', d.$y + n)\<close>: it returns a new object.\<close>

fun add_year :: "Dayjs \<Rightarrow> int \<Rightarrow> Dayjs" where
  "add_year Invalid n = Invalid"
| "add_year (Valid d) n = set_year (Valid d) (year_of d + n)"

text \<open>\<open>a.isBefore(b)\<close> compares time values; with an invalid date it is false.\<close>

fun isBefore :: "Dayjs \<Rightarrow> Dayjs \<Rightarrow> bool" where
  "isBefore (Valid a) (Valid b) = (valueOf a < valueOf b)"
| "isBefore _ _ = False"

text \<open>
  dayjs rounds a difference toward zero:
  \<open>absFloor n = (n < 0 ? Math.ceil(n) || 0 : Math.floor(n))\<close>.
\<close>

definition absFloor :: "rat \<Rightarrow> int" where
  "absFloor n = (if n < 0 then \<lceil>n\<rceil> else \<lfloor>n\<rfloor>)"

text \<open>\<open>a.diff(b)\<close> in milliseconds and \<open>a.diff(b, 'day')\<close> in whole days.\<close>

fun diff_ms :: "Dayjs \<Rightarrow> Dayjs \<Rightarrow> jsnum" where
  "diff_ms (Valid a) (Valid b) = Num (valueOf a - valueOf b)"
| "diff_ms _ _ = NaN"

fun diff_day :: "Dayjs \<Rightarrow> Dayjs \<Rightarrow> jsnum" where
  "diff_day (Valid a) (Valid b) =
     Num (absFloor (of_int (valueOf a - valueOf b) / of_int MILLISECONDS_A_DAY))"
| "diff_day _ _ = NaN"

section \<open>Array.prototype.sort\<close>

text \<open>
  \<open>SortCompare\<close> reads a comparator's \<open>NaN\<close> as \<open>+0\<close>. The sort is stable; with a
  comparator that is a difference of keys the result is the one stable arrangement by
  key, which this insertion sort computes.
\<close>

fun SortCompare :: "('a \<Rightarrow> 'a \<Rightarrow> jsnum) \<Rightarrow> 'a \<Rightarrow> 'a \<Rightarrow> int" where
  "SortCompare cmp x y = (case cmp x y of NaN \<Rightarrow> 0 | Num v \<Rightarrow> v)"

fun sort_insert :: "('a \<Rightarrow> 'a \<Rightarrow> jsnum) \<Rightarrow> 'a \<Rightarrow> 'a list \<Rightarrow> 'a list" where
  "sort_insert cmp x [] = [x]"
| "sort_insert cmp x (y # ys) =
     (if SortCompare cmp x y \<le> 0 then x # y # ys else y # sort_insert cmp x ys)"

definition array_sort :: "('a \<Rightarrow> 'a \<Rightarrow> jsnum) \<Rightarrow> 'a list \<Rightarrow> 'a list" where
  "array_sort cmp xs = foldr (sort_insert cmp) xs []"

section \<open>The CRM component\<close>

record person =
  person_id :: string
  firstName :: string
  lastName :: string
  email :: jsval
  phone :: jsval
  birthday :: jsval
  person_notes :: jsval

text \<open>
  Lines 91 to 94, 97 to 100 and 198 to 199 of \<open>CRM.jsx\<close> compute the same date:
  \<^verbatim>\<open>
  const nextBirthday = dayjs(person.birthday).year(today.year())
  if (nextBirthday.isBefore(today)) { nextBirthday.add(1, 'year') }
  \<close>
  The object returned by \<open>add\<close> is dropped and \<open>nextBirthday\<close> is not assigned again.
\<close>

definition nextBirthday :: "(string \<Rightarrow> Dayjs) \<Rightarrow> datetime \<Rightarrow> jsval \<Rightarrow> Dayjs" where
  "nextBirthday parse today b =
     (let nextBirthday = set_year (dayjs parse today b) (year_of today);
          dropped = (if isBefore nextBirthday (Valid today)
                     then add_year nextBirthday 1 else nextBirthday)
      in nextBirthday)"

text \<open>The predicate of \<open>people.filter\<close> (lines 89 to 95).\<close>

definition isUpcoming :: "(string \<Rightarrow> Dayjs) \<Rightarrow> datetime \<Rightarrow> person \<Rightarrow> bool" where
  "isUpcoming parse today p =
     (if \<not> truthy (birthday p) then False
      else num_le (diff_day (nextBirthday parse today (birthday p)) (Valid today)) (Num 30))"

text \<open>The comparator of \<open>sort\<close> (lines 96 to 102).\<close>

definition compareNext :: "(string \<Rightarrow> Dayjs) \<Rightarrow> datetime \<Rightarrow> person \<Rightarrow> person \<Rightarrow> jsnum" where
  "compareNext parse today a b =
     diff_ms (nextBirthday parse today (birthday a)) (nextBirthday parse today (birthday b))"

definition getUpcomingBirthdays ::
  "(string \<Rightarrow> Dayjs) \<Rightarrow> datetime \<Rightarrow> person list \<Rightarrow> person list" where
  "getUpcomingBirthdays parse today people =
     array_sort (compareNext parse today) (filter (isUpcoming parse today) people)"

text \<open>
  The card of a contact (lines 196 to 207): the same date again, the days until it, and
  the label \<^verbatim>\<open>daysUntil === 0 ? 'Today!' : `${daysUntil} days`\<close>.
\<close>

definition daysUntil :: "(string \<Rightarrow> Dayjs) \<Rightarrow> datetime \<Rightarrow> person \<Rightarrow> jsnum" where
  "daysUntil parse today p = diff_day (nextBirthday parse today (birthday p)) (Valid today)"

fun digits :: "nat \<Rightarrow> string" where
  "digits n =
     (if n < 10 then [char_of (48 + n)]
      else digits (n div 10) @ [char_of (48 + n mod 10)])"

fun num_toString :: "jsnum \<Rightarrow> string" where
  "num_toString NaN = ''NaN''"
| "num_toString (Num i) = (if i < 0 then CHR ''-'' # digits (nat (- i)) else digits (nat i))"

definition daysLabel :: "(string \<Rightarrow> Dayjs) \<Rightarrow> datetime \<Rightarrow> person \<Rightarrow> string" where
  "daysLabel parse today p =
     (let daysUntil = daysUntil parse today p
      in if daysUntil = Num 0 then ''Today!'' else num_toString daysUntil @ '' days'')"

subsection \<open>getAge\<close>

text \<open>
  \<open>d.add(n, 'month')\<close> is \<open>d.set('month', d.$M + n)\<close>: months carry into the year and
  the day of the month is clamped to the length of the month reached.
\<close>

definition add_month :: "datetime \<Rightarrow> int \<Rightarrow> datetime" where
  "add_month d n =
     (let k = year_of d * 12 + (month_of d - 1) + n;
          y = k div 12;
          m = k mod 12 + 1
      in d\<lparr>year_of := y, month_of := m, date_of := min (date_of d) (daysInMonth y m)\<rparr>)"

text \<open>
  dayjs's \<open>monthDiff\<close> (utils.js), the number of months from \<open>a\<close> to \<open>b\<close> with a
  fraction, negated:
  \<^verbatim>\<open>
  if (a.date() < b.date()) return -monthDiff(b, a)
  const wholeMonthDiff = ((b.year() - a.year()) * 12) + (b.month() - a.month())
  const anchor = a.clone().add(wholeMonthDiff, 'month')
  const c = b - anchor < 0
  const anchor2 = a.clone().add(wholeMonthDiff + (c ? -1 : 1), 'month')
  return +(-(wholeMonthDiff + ((b - anchor) / (c ? (anchor - anchor2) :
    (anchor2 - anchor)))) || 0)
  \<close>
  The quotient is taken in the rationals.
\<close>

function monthDiff :: "datetime \<Rightarrow> datetime \<Rightarrow> rat" where
  "monthDiff a b =
     (if date_of a < date_of b then - monthDiff b a
      else
        let wholeMonthDiff = (year_of b - year_of a) * 12 + (month_of b - month_of a);
            anchor = add_month a wholeMonthDiff;
            c = (valueOf b - valueOf anchor < 0);
            anchor2 = add_month a (wholeMonthDiff + (if c then - 1 else 1))
        in - (of_int wholeMonthDiff +
              of_int (valueOf b - valueOf anchor) /
                of_int (if c then valueOf anchor - valueOf anchor2
                        else valueOf anchor2 - valueOf anchor)))"
  by pat_completeness auto
termination
  by (relation "measure (\<lambda>(a, b). if date_of a < date_of b then 1 else 0)") auto

declare monthDiff.simps [simp del]

text \<open>
  \<open>a.diff(b, 'year')\<close> is \<open>absFloor (monthDiff a b / 12)\<close>. With an invalid date the
  \<open>|| 0\<close> of \<open>monthDiff\<close> turns its \<open>NaN\<close> into 0.
\<close>

fun diff_year :: "Dayjs \<Rightarrow> Dayjs \<Rightarrow> jsnum" where
  "diff_year (Valid a) (Valid b) = Num (absFloor (monthDiff a b / 12))"
| "diff_year _ _ = Num 0"

text \<open>\<open>getAge\<close> (lines 80 to 85) returns \<open>null\<close> or a number.\<close>

datatype age = NoAge | Age jsnum

definition getAge :: "(string \<Rightarrow> Dayjs) \<Rightarrow> datetime \<Rightarrow> jsval \<Rightarrow> age" where
  "getAge parse today b =
     (if \<not> truthy b then NoAge
      else let birthDate = dayjs parse today b
           in Age (diff_year (Valid today) birthDate))"

subsection \<open>loadPeople\<close>

text \<open>
  The state of the component that \<open>loadPeople\<close> (lines 20 to 31) touches, with the
  notifications shown so far. The awaited \<open>Person.list()\<close> either throws or returns a
  response with \<open>success\<close> and \<open>data\<close>; its outcome is the argument.
\<close>

record crm_state =
  people :: "person list"
  loading :: bool
  errors_shown :: "string list"

record list_response =
  success :: bool
  data :: "person list"

datatype list_outcome = Throws | Returns list_response

definition loadPeople :: "crm_state \<Rightarrow> list_outcome \<Rightarrow> crm_state" where
  "loadPeople st outcome =
     (let st1 = st\<lparr>loading := True\<rparr>;
          st2 = (case outcome of
                   Returns response \<Rightarrow>
                     if success response then st1\<lparr>people := data response\<rparr> else st1
                 | Throws \<Rightarrow>
                     st1\<lparr>errors_shown := errors_shown st1 @ [''Failed to load people'']\<rparr>)
      in st2\<lparr>loading := False\<rparr>)"

section \<open>Concrete dates and contacts\<close>

text \<open>
  The component stores a birthday as \<open>values.birthday.format('YYYY-MM-DD')\<close> (line 62).
  \<open>parse_ymd\<close> is dayjs's parser on the strings the examples below use: a date of the
  calendar written \<open>YYYY-MM-DD\<close> is local midnight of that day (a year below 100 counts
  from 1900, as the \<open>Date\<close> constructor has it), and a string that is no date at all,
  such as \<open>abc\<close>, is \<open>Invalid\<close>. dayjs reads more notations than this one and carries
  a day or month out of range into the next month or year; \<open>parse_ymd\<close> answers
  \<open>Invalid\<close> there, and nothing below applies it to such a string. The theorems about
  the component hold for every parser.
\<close>

fun digit_val :: "char \<Rightarrow> int option" where
  "digit_val c =
     (if c \<in> set ''0123456789'' then Some (int (of_char c) - 48) else None)"

fun number_of :: "string \<Rightarrow> int option" where
  "number_of [] = Some 0"
| "number_of (c # cs) =
     (case (digit_val c, number_of cs) of
        (Some v, Some r) \<Rightarrow> Some (v * 10 ^ length cs + r)
      | _ \<Rightarrow> None)"

definition parse_ymd :: "string \<Rightarrow> Dayjs" where
  "parse_ymd s =
     (if length s = 10 \<and> s ! 4 = CHR ''-'' \<and> s ! 7 = CHR ''-'' then
        (case (number_of (take 4 s), number_of (take 2 (drop 5 s)), number_of (drop 8 s)) of
           (Some y, Some m, Some d) \<Rightarrow>
             (let dt = \<lparr>year_of = (if y < 100 then 1900 + y else y), month_of = m,
                        date_of = d, ms_of_day = 0\<rparr>
              in if wf_datetime dt then Valid dt else Invalid)
         | _ \<Rightarrow> Invalid)
      else Invalid)"

definition contact :: "string \<Rightarrow> string \<Rightarrow> jsval \<Rightarrow> person" where
  "contact i n b =
     \<lparr>person_id = i, firstName = n, lastName = ''Doe'', email = Null, phone = Undefined,
      birthday = b, person_notes = Null\<rparr>"

text \<open>2024-06-01, 10:30 in the morning.\<close>

definition june1 :: datetime where
  "june1 = \<lparr>year_of = 2024, month_of = 6, date_of = 1, ms_of_day = 37800000\<rparr>"

text \<open>
  Contacts: Alice's birthday is two weeks ahead, Bob's was twelve days ago, Carol has no
  birthday, Dave's birthday is no date, Erin's birthday is today, Frank's was
  yesterday, Grace's is the day after tomorrow and Heidi's is seven weeks ahead.
\<close>

definition alice :: person where "alice = contact ''a1'' ''Alice'' (Str ''1990-06-15'')"
definition bob :: person where "bob = contact ''b2'' ''Bob'' (Str ''1990-05-20'')"
definition carol :: person where "carol = contact ''c3'' ''Carol'' Null"
definition dave :: person where "dave = contact ''d4'' ''Dave'' (Str ''abc'')"
definition erin :: person where "erin = contact ''e5'' ''Erin'' (Str ''1985-06-01'')"
definition frank :: person where "frank = contact ''f6'' ''Frank'' (Str ''1990-05-31'')"
definition grace :: person where "grace = contact ''g7'' ''Grace'' (Str ''2001-06-03'')"
definition heidi :: person where "heidi = contact ''h8'' ''Heidi'' (Str ''1990-07-20'')"

text \<open>The time value of a contact's \<open>nextBirthday\<close>, the key the comparator subtracts.\<close>

definition nextValue :: "(string \<Rightarrow> Dayjs) \<Rightarrow> datetime \<Rightarrow> person \<Rightarrow> int" where
  "nextValue parse today p =
     (case nextBirthday parse today (birthday p) of Valid d \<Rightarrow> valueOf d | Invalid \<Rightarrow> 0)"

text \<open>
  Months counted from year 0 (\<open>monthIndex\<close>), the day number of the first day of a
  month so counted, and its length: the calendar as \<open>add_month\<close> walks it.
\<close>

definition monthIndex :: "datetime \<Rightarrow> int" where
  "monthIndex d = year_of d * 12 + (month_of d - 1)"

definition monthStart :: "int \<Rightarrow> int" where
  "monthStart k = DayFromYear (k div 12) + daysBeforeMonth (k div 12) (k mod 12 + 1)"

definition monthLength :: "int \<Rightarrow> int" where
  "monthLength k = daysInMonth (k div 12) (k mod 12 + 1)"

text \<open>
  The difference in whole years between today and a birth date, in the words of the
  specification. The anniversary of a date in a year is its month, day and time in that
  year; for Feb 29 in a year that is no leap year it is Feb 28, which is where the
  library lands when it adds years. The whole years from a date to a later one are the
  years between their calendar years, less one while the anniversary of the first in
  the year of the second is still ahead: as many whole years as can be added to the
  first without passing the second. The difference between today and the birth date is
  the whole years from the birth date to today, or minus the whole years from today to
  the birth date when the birth date is the later of the two.
\<close>

definition anniversary :: "datetime \<Rightarrow> int \<Rightarrow> datetime" where
  "anniversary b y =
     b\<lparr>year_of := y, date_of := min (date_of b) (daysInMonth y (month_of b))\<rparr>"

definition elapsedYears :: "datetime \<Rightarrow> datetime \<Rightarrow> int" where
  "elapsedYears x z =
     year_of z - year_of x -
       (if valueOf z < valueOf (anniversary x (year_of z)) then 1 else 0)"

definition wholeYears :: "datetime \<Rightarrow> datetime \<Rightarrow> int" where
  "wholeYears today b =
     (if valueOf b \<le> valueOf today then elapsedYears b today
      else - elapsedYears today b)"

text \<open>
  Today is 28 February of a year that is no leap year, after midnight, and the birth
  date is a 29 February still to come.
\<close>

definition leapDayAhead :: "datetime \<Rightarrow> datetime \<Rightarrow> bool" where
  "leapDayAhead today b =
     (valueOf today < valueOf b \<and> month_of b = 2 \<and> date_of b = 29 \<and>
      month_of today = 2 \<and> date_of today = 28 \<and> \<not> isLeapYear (year_of today) \<and>
      0 < ms_of_day today)"

text \<open>
  2024-12-20 and 2023-02-28, both at 10:30 in the morning, and three contacts with
  birthdays on 25 December, 5 January and 15 January.
\<close>

definition dec20 :: datetime where
  "dec20 = \<lparr>year_of = 2024, month_of = 12, date_of = 20, ms_of_day = 37800000\<rparr>"

definition feb28 :: datetime where
  "feb28 = \<lparr>year_of = 2023, month_of = 2, date_of = 28, ms_of_day = 37800000\<rparr>"

definition ivan :: person where "ivan = contact ''i9'' ''Ivan'' (Str ''1990-12-25'')"
definition judy :: person where "judy = contact ''j10'' ''Judy'' (Str ''1985-01-05'')"
definition karl :: person where "karl = contact ''k11'' ''Karl'' (Str ''1979-01-15'')"

text \<open>The state of the component with Alice loaded.\<close>

definition loaded :: crm_state where
  "loaded = \<lparr>people = [alice], loading = False, errors_shown = []\<rparr>"

section \<open>Properties of the sort\<close>

lemma set_sort_insert: "set (sort_insert cmp x ys) = insert x (set ys)"
  by (induction ys) auto

lemma set_array_sort: "set (array_sort cmp xs) = set xs"
  unfolding array_sort_def by (induction xs) (simp_all add: set_sort_insert)

lemma mset_sort_insert: "mset (sort_insert cmp x ys) = add_mset x (mset ys)"
  by (induction ys) auto

lemma mset_array_sort: "mset (array_sort cmp xs) = mset xs"
  unfolding array_sort_def by (induction xs) (simp_all add: mset_sort_insert)

lemma set_getUpcomingBirthdays:
  "set (getUpcomingBirthdays parse today ps) = {p \<in> set ps. isUpcoming parse today p}"
  by (simp add: getUpcomingBirthdays_def set_array_sort)

lemma sorted_sort_insert:
  assumes "\<forall>a \<in> insert x (set ys). \<forall>b \<in> insert x (set ys). cmp a b = Num (k a - k b)"
    and "sorted_wrt (\<lambda>a b. k a \<le> k b) ys"
  shows "sorted_wrt (\<lambda>a b. (k a :: int) \<le> k b) (sort_insert cmp x ys)"
  using assms
proof (induction ys)
  case Nil
  then show ?case by simp
next
  case (Cons y ys)
  have c: "SortCompare cmp x y = k x - k y"
    using Cons.prems(1) by simp
  show ?case
  proof (cases "k x \<le> k y")
    case True
    with c Cons.prems(2) show ?thesis by auto
  next
    case False
    have "sorted_wrt (\<lambda>a b. k a \<le> k b) (sort_insert cmp x ys)"
      using Cons.IH Cons.prems by simp
    with False c Cons.prems(2) show ?thesis
      by (auto simp: set_sort_insert)
  qed
qed

lemma sorted_array_sort:
  assumes "\<forall>a \<in> set xs. \<forall>b \<in> set xs. cmp a b = Num (k a - k b)"
  shows "sorted_wrt (\<lambda>a b. (k a :: int) \<le> k b) (array_sort cmp xs)"
  using assms
proof (induction xs)
  case Nil
  then show ?case by (simp add: array_sort_def)
next
  case (Cons x xs)
  have IH: "sorted_wrt (\<lambda>a b. k a \<le> k b) (array_sort cmp xs)"
    using Cons by simp
  have "array_sort cmp (x # xs) = sort_insert cmp x (array_sort cmp xs)"
    by (simp add: array_sort_def)
  moreover have "sorted_wrt (\<lambda>a b. k a \<le> k b) (sort_insert cmp x (array_sort cmp xs))"
    using Cons.prems IH by (intro sorted_sort_insert) (simp_all add: set_array_sort)
  ultimately show ?case by simp
qed

section \<open>Rounding toward zero\<close>

lemma absFloor_mono: "x \<le> y \<Longrightarrow> absFloor x \<le> absFloor y"
proof -
  assume xy: "x \<le> y"
  show ?thesis
  proof (cases "x < 0")
    case True
    show ?thesis
    proof (cases "y < 0")
      case True
      with \<open>x < 0\<close> xy show ?thesis by (simp add: absFloor_def ceiling_mono)
    next
      case False
      from \<open>x < 0\<close> have "\<lceil>x\<rceil> \<le> 0" by (simp add: ceiling_le_zero)
      moreover from False have "0 \<le> \<lfloor>y\<rfloor>" by simp
      moreover have "absFloor x = \<lceil>x\<rceil>" "absFloor y = \<lfloor>y\<rfloor>"
        using \<open>x < 0\<close> False by (simp_all add: absFloor_def)
      ultimately show ?thesis by linarith
    qed
  next
    case False
    with xy have "\<not> y < 0" by simp
    with False xy show ?thesis by (simp add: absFloor_def floor_mono)
  qed
qed

lemma absFloor_small:
  assumes "- d < x" "x < d"
  shows "absFloor (of_int x / of_int d) = 0"
proof -
  have d: "0 < d" using assms by linarith
  show ?thesis
  proof (cases "x < 0")
    case True
    then have neg: "(of_int x :: rat) / of_int d < 0"
      using d by (simp add: divide_neg_pos)
    have "- 1 < (of_int x :: rat) / of_int d"
    proof -
      have "(of_int (- d) :: rat) < of_int x" using assms(1) by (simp only: of_int_less_iff)
      then have "- (of_int d :: rat) < of_int x" by simp
      then show ?thesis using d by (simp add: pos_less_divide_eq)
    qed
    with neg have "\<lceil>(of_int x :: rat) / of_int d\<rceil> = 0"
      by (intro ceiling_unique) simp_all
    with neg show ?thesis by (simp add: absFloor_def)
  next
    case False
    then have nn: "0 \<le> (of_int x :: rat) / of_int d"
      using d by simp
    have "(of_int x :: rat) / of_int d < 1"
      using assms(2) d by simp
    with nn have "\<lfloor>(of_int x :: rat) / of_int d\<rfloor> = 0"
      by (intro floor_unique) simp_all
    with nn show ?thesis by (simp add: absFloor_def)
  qed
qed

section \<open>The calendar\<close>

text \<open>
  One more year adds 365 days, or 366 after a leap year; one more month adds the length
  of the month. So the first days of the months, counted through, increase.
\<close>

lemma div_step:
  fixes x :: int
  assumes "0 < n"
  shows "(x + 1) div n = x div n + (if (x + 1) mod n = 0 then 1 else 0)"
proof -
  have x: "x = n * (x div n) + x mod n" by simp
  have b: "0 \<le> x mod n" "x mod n < n" using assms by simp_all
  show ?thesis
  proof (cases "x mod n = n - 1")
    case True
    then have "x + 1 = n * (x div n) + n" using x by linarith
    then have e: "x + 1 = n * (x div n + 1) + 0" by (simp add: algebra_simps)
    have "(x + 1) div n = x div n + 1"
      by (rule int_div_pos_eq [OF e]) (use assms in simp_all)
    moreover have "(x + 1) mod n = 0"
      by (rule int_mod_pos_eq [OF e]) (use assms in simp_all)
    ultimately show ?thesis by simp
  next
    case False
    with b have lt: "x mod n + 1 < n" by linarith
    have e: "x + 1 = n * (x div n) + (x mod n + 1)" using x by linarith
    have d: "(x + 1) div n = x div n"
      by (rule int_div_pos_eq [OF e]) (use b lt in linarith)+
    have m: "(x + 1) mod n = x mod n + 1"
      by (rule int_mod_pos_eq [OF e]) (use b lt in linarith)+
    from m b have "(x + 1) mod n \<noteq> 0" by linarith
    with d show ?thesis by simp
  qed
qed

lemma mod_shift: "(x - k * n) mod n = x mod (n :: int)"
  by (metis diff_conv_add_uminus mod_mult_self1 mult_minus_left)

lemma mod_4_shift: "(y - 1968) mod 4 = y mod (4::int)"
  using mod_shift [of y 492 4] by simp

lemma mod_100_shift: "(y - 1900) mod 100 = y mod (100::int)"
  using mod_shift [of y 19 100] by simp

lemma mod_400_shift: "(y - 1600) mod 400 = y mod (400::int)"
  using mod_shift [of y 4 400] by simp

lemma mod_4_100: "y mod 100 = 0 \<Longrightarrow> y mod 4 = (0::int)"
proof -
  assume "y mod 100 = 0"
  then have "100 dvd y" by (simp add: mod_eq_0_iff_dvd)
  moreover have "(4::int) dvd 100" by simp
  ultimately have "4 dvd y" by (rule dvd_trans [rotated])
  then show ?thesis by simp
qed

lemma mod_100_400: "y mod 400 = 0 \<Longrightarrow> y mod 100 = (0::int)"
proof -
  assume "y mod 400 = 0"
  then have "400 dvd y" by (simp add: mod_eq_0_iff_dvd)
  moreover have "(100::int) dvd 400" by simp
  ultimately have "100 dvd y" by (rule dvd_trans [rotated])
  then show ?thesis by simp
qed

lemma DayFromYear_Suc:
  "DayFromYear (y + 1) = DayFromYear y + 365 + (if isLeapYear y then 1 else 0)"
proof -
  have a: "(y + 1 - 1969) div 4 = (y - 1969) div 4 + (if y mod 4 = 0 then 1 else 0)"
    using div_step [of 4 "y - 1969"] mod_4_shift [of y] by (simp add: algebra_simps)
  have b: "(y + 1 - 1901) div 100 = (y - 1901) div 100 + (if y mod 100 = 0 then 1 else 0)"
    using div_step [of 100 "y - 1901"] mod_100_shift [of y] by (simp add: algebra_simps)
  have c: "(y + 1 - 1601) div 400 = (y - 1601) div 400 + (if y mod 400 = 0 then 1 else 0)"
    using div_step [of 400 "y - 1601"] mod_400_shift [of y] by (simp add: algebra_simps)
  show ?thesis
    unfolding DayFromYear_def isLeapYear_def a b c
    using mod_4_100 [of y] mod_100_400 [of y] by auto
qed

lemma daysBeforeMonth_Suc:
  assumes "1 \<le> m" "m \<le> 11"
  shows "daysBeforeMonth y (m + 1) = daysBeforeMonth y m + daysInMonth y m"
proof -
  from assms have "m = 1 \<or> m = 2 \<or> m = 3 \<or> m = 4 \<or> m = 5 \<or> m = 6 \<or> m = 7 \<or> m = 8 \<or>
      m = 9 \<or> m = 10 \<or> m = 11"
    by presburger
  then show ?thesis
    by (elim disjE) (simp_all add: daysBeforeMonth_def daysInMonth_def)
qed

lemma daysBeforeMonth_year:
  "daysBeforeMonth y 12 + daysInMonth y 12 = 365 + (if isLeapYear y then 1 else 0)"
  by (simp add: daysBeforeMonth_def daysInMonth_def)

lemma monthStart_Suc: "monthStart (k + 1) = monthStart k + monthLength k"
proof (cases "k mod 12 = 11")
  case True
  have "k = 12 * (k div 12) + k mod 12" by simp
  with True have "k = 12 * (k div 12) + 11" by simp
  then have e: "k + 1 = 12 * (k div 12 + 1) + 0" by (simp add: algebra_simps)
  have d: "(k + 1) div 12 = k div 12 + 1" by (rule int_div_pos_eq [OF e]) simp_all
  have m: "(k + 1) mod 12 = 0" by (rule int_mod_pos_eq [OF e]) simp_all
  show ?thesis
    using daysBeforeMonth_year [of "k div 12"] DayFromYear_Suc [of "k div 12"]
    by (simp add: monthStart_def monthLength_def d m True daysBeforeMonth_def)
next
  case False
  have b: "0 \<le> k mod 12" "k mod 12 < 12" by simp_all
  with False have lt: "k mod 12 + 1 < 12" by linarith
  have "k = 12 * (k div 12) + k mod 12" by simp
  then have e: "k + 1 = 12 * (k div 12) + (k mod 12 + 1)" by simp
  have d: "(k + 1) div 12 = k div 12"
    by (rule int_div_pos_eq [OF e]) (use b lt in linarith)+
  have m: "(k + 1) mod 12 = k mod 12 + 1"
    by (rule int_mod_pos_eq [OF e]) (use b lt in linarith)+
  have "daysBeforeMonth (k div 12) (k mod 12 + 1 + 1) =
      daysBeforeMonth (k div 12) (k mod 12 + 1) + daysInMonth (k div 12) (k mod 12 + 1)"
    by (rule daysBeforeMonth_Suc) (use b lt in linarith)+
  then show ?thesis
    by (simp add: monthStart_def monthLength_def d m)
qed

lemma monthLength_bounds: "28 \<le> monthLength k" "monthLength k \<le> 31"
  by (simp_all add: monthLength_def daysInMonth_def)

text \<open>The time value of a date and of \<open>add_month\<close>, by the count of months.\<close>

lemma monthIndex_div_mod:
  assumes "1 \<le> month_of d" "month_of d \<le> 12"
  shows "monthIndex d div 12 = year_of d" "monthIndex d mod 12 + 1 = month_of d"
proof -
  have e: "monthIndex d = 12 * year_of d + (month_of d - 1)"
    by (simp add: monthIndex_def)
  show "monthIndex d div 12 = year_of d"
    by (rule int_div_pos_eq [OF e]) (use assms in linarith)+
  have "monthIndex d mod 12 = month_of d - 1"
    by (rule int_mod_pos_eq [OF e]) (use assms in linarith)+
  then show "monthIndex d mod 12 + 1 = month_of d" by simp
qed

lemma valueOf_monthStart:
  assumes "1 \<le> month_of d" "month_of d \<le> 12"
  shows "valueOf d =
     (monthStart (monthIndex d) + date_of d - 1) * 86400000 + ms_of_day d"
  using monthIndex_div_mod [OF assms]
  by (simp add: valueOf_def monthStart_def MILLISECONDS_A_DAY_def)

lemma daysInMonth_monthLength:
  assumes "1 \<le> month_of d" "month_of d \<le> 12"
  shows "daysInMonth (year_of d) (month_of d) = monthLength (monthIndex d)"
  using monthIndex_div_mod [OF assms] by (simp add: monthLength_def)

lemma add_month_fields:
  shows "monthIndex (add_month d n) = monthIndex d + n"
    and "1 \<le> month_of (add_month d n)" and "month_of (add_month d n) \<le> 12"
    and "date_of (add_month d n) = min (date_of d) (monthLength (monthIndex d + n))"
    and "ms_of_day (add_month d n) = ms_of_day d"
proof -
  define k where "k = year_of d * 12 + (month_of d - 1) + n"
  have am: "add_month d n = d\<lparr>year_of := k div 12, month_of := k mod 12 + 1,
      date_of := min (date_of d) (daysInMonth (k div 12) (k mod 12 + 1))\<rparr>"
    by (simp add: add_month_def Let_def k_def)
  have mi: "monthIndex d + n = k" by (simp add: monthIndex_def k_def)
  have b: "0 \<le> k mod 12" "k mod 12 < 12" by simp_all
  have "monthIndex (add_month d n) = k div 12 * 12 + k mod 12"
    unfolding am by (simp add: monthIndex_def)
  then show "monthIndex (add_month d n) = monthIndex d + n"
    unfolding mi by simp
  show "1 \<le> month_of (add_month d n)" "month_of (add_month d n) \<le> 12"
    unfolding am using b by simp_all
  show "date_of (add_month d n) = min (date_of d) (monthLength (monthIndex d + n))"
    unfolding am mi by (simp add: monthLength_def)
  show "ms_of_day (add_month d n) = ms_of_day d"
    unfolding am by simp
qed

lemma valueOf_add_month:
  "valueOf (add_month d n) =
     (monthStart (monthIndex d + n) + min (date_of d) (monthLength (monthIndex d + n)) - 1)
       * 86400000 + ms_of_day d"
  using add_month_fields [of d n]
  by (simp add: valueOf_monthStart)

lemma monthStart_mono_aux: "monthStart (i + 1) \<le> monthStart (i + 1 + int n)"
proof (induction n)
  case 0
  then show ?case by simp
next
  case (Suc n)
  have "monthStart (i + 1 + int n + 1) = monthStart (i + 1 + int n) + monthLength (i + 1 + int n)"
    by (rule monthStart_Suc)
  with Suc monthLength_bounds(1) [of "i + 1 + int n"] show ?case
    by (simp add: add.assoc add.commute)
qed

lemma monthStart_mono:
  assumes "i < j"
  shows "monthStart i + monthLength i \<le> monthStart j"
proof -
  from assms obtain n where "j = i + 1 + int n"
    by (metis add.commute zle_iff_zadd zless_imp_add1_zle)
  then show ?thesis
    using monthStart_mono_aux [of i n] monthStart_Suc [of i] by simp
qed

section \<open>Months between two dates\<close>

text \<open>
  For \<open>a\<close> with a day of the month not before that of \<open>b\<close>, \<open>monthDiff a b\<close> lies
  within one month of the months from \<open>b\<close> to \<open>a\<close>: the fraction it adds is the
  position of \<open>b\<close> between \<open>a\<close> moved to the month of \<open>b\<close> and \<open>a\<close> moved one month
  further.
\<close>

lemma frac_neg:
  fixes p q :: int
  assumes "- q < p" "p < 0"
  shows "- 1 < (of_int p :: rat) / of_int q" "(of_int p :: rat) / of_int q < 0"
proof -
  have q: "0 < q" using assms by linarith
  have "(of_int (- q) :: rat) < of_int p" using assms(1) by (simp only: of_int_less_iff)
  then have "- (of_int q :: rat) < of_int p" by simp
  then show "- 1 < (of_int p :: rat) / of_int q" using q by (simp add: pos_less_divide_eq)
  show "(of_int p :: rat) / of_int q < 0" using q assms(2) by (simp add: divide_neg_pos)
qed

lemma frac_pos:
  fixes p q :: int
  assumes "0 < p" "p < q"
  shows "0 < (of_int p :: rat) / of_int q" "(of_int p :: rat) / of_int q < 1"
proof -
  have q: "0 < q" using assms by linarith
  show "0 < (of_int p :: rat) / of_int q" using q assms(1) by simp
  show "(of_int p :: rat) / of_int q < 1" using q assms(2) by simp
qed

lemma absFloor_div12:
  fixes n :: int
  assumes "0 \<le> n" "of_int n \<le> x" "x < of_int n + 1"
  shows "absFloor (x / 12) = n div 12"
proof -
  have x0: "0 \<le> x" using assms(1,2) by (meson of_int_0_le_iff order_trans)
  have n: "n = 12 * (n div 12) + n mod 12" by simp
  have m: "0 \<le> n mod 12" "n mod 12 < 12" by simp_all
  have lo: "12 * (n div 12) \<le> n" using n m by linarith
  have hi: "n + 1 \<le> 12 * (n div 12) + 12" using n m by linarith
  have "(of_int (12 * (n div 12)) :: rat) \<le> of_int n" using lo by (simp only: of_int_le_iff)
  then have a: "of_int (n div 12) \<le> x / 12" using assms(2) by simp
  have "(of_int (n + 1) :: rat) \<le> of_int (12 * (n div 12) + 12)"
    using hi by (simp only: of_int_le_iff)
  then have b: "x / 12 < of_int (n div 12) + 1" using assms(3) by simp
  have "\<lfloor>x / 12\<rfloor> = n div 12" using a b by (rule floor_unique)
  then show ?thesis using x0 by (simp add: absFloor_def)
qed

lemma monthDiff_unfold:
  assumes "date_of b \<le> date_of a"
  shows "monthDiff a b =
     - (of_int (monthIndex b - monthIndex a) +
        of_int (valueOf b - valueOf (add_month a (monthIndex b - monthIndex a))) /
          of_int (if valueOf b - valueOf (add_month a (monthIndex b - monthIndex a)) < 0
                  then valueOf (add_month a (monthIndex b - monthIndex a)) -
                       valueOf (add_month a (monthIndex b - monthIndex a - 1))
                  else valueOf (add_month a (monthIndex b - monthIndex a + 1)) -
                       valueOf (add_month a (monthIndex b - monthIndex a))))"
proof -
  have w: "(year_of b - year_of a) * 12 + (month_of b - month_of a) =
      monthIndex b - monthIndex a"
    by (simp add: monthIndex_def algebra_simps)
  from assms have n: "\<not> date_of a < date_of b" by simp
  show ?thesis
    by (subst monthDiff.simps, simp only: n if_False Let_def w,
        cases "valueOf b - valueOf (add_month a (monthIndex b - monthIndex a)) < 0")
      simp_all
qed

lemma day_less:
  fixes d1 d2 t1 t2 :: int
  assumes "d1 < d2" "t1 < 86400000" "0 \<le> t2"
  shows "d1 * 86400000 + t1 < d2 * 86400000 + t2"
proof -
  have "(d1 + 1) * 86400000 \<le> d2 * 86400000"
    using assms(1) by (intro mult_right_mono) simp_all
  then have "d1 * 86400000 + 86400000 \<le> d2 * 86400000"
    by (simp add: algebra_simps)
  with assms(2,3) show ?thesis by linarith
qed

lemma monthDiff_bracket:
  assumes a: "wf_datetime a" and b: "wf_datetime b" and dd: "date_of b \<le> date_of a"
  shows "valueOf b < valueOf (add_month a (monthIndex b - monthIndex a)) \<Longrightarrow>
      of_int (monthIndex a - monthIndex b) < monthDiff a b \<and>
      monthDiff a b < of_int (monthIndex a - monthIndex b) + 1"
    and "valueOf b = valueOf (add_month a (monthIndex b - monthIndex a)) \<Longrightarrow>
      monthDiff a b = of_int (monthIndex a - monthIndex b)"
    and "valueOf (add_month a (monthIndex b - monthIndex a)) < valueOf b \<Longrightarrow>
      of_int (monthIndex a - monthIndex b) - 1 < monthDiff a b \<and>
      monthDiff a b < of_int (monthIndex a - monthIndex b)"
proof -
  define w where "w = monthIndex b - monthIndex a"
  define ib where "ib = monthIndex b"
  define v0 where "v0 = valueOf (add_month a w)"
  define vm where "vm = valueOf (add_month a (w - 1))"
  define vp where "vp = valueOf (add_month a (w + 1))"
  define vb where "vb = valueOf b"
  have i0: "monthIndex a + w = ib" and im: "monthIndex a + (w - 1) = ib - 1"
    and ip: "monthIndex a + (w + 1) = ib + 1"
    by (simp_all add: w_def ib_def)
  have A0: "v0 = (monthStart ib + min (date_of a) (monthLength ib) - 1) * 86400000 + ms_of_day a"
    unfolding v0_def valueOf_add_month i0 ..
  have Am: "vm = (monthStart (ib - 1) + min (date_of a) (monthLength (ib - 1)) - 1) * 86400000
      + ms_of_day a"
    unfolding vm_def valueOf_add_month im ..
  have Ap: "vp = (monthStart (ib + 1) + min (date_of a) (monthLength (ib + 1)) - 1) * 86400000
      + ms_of_day a"
    unfolding vp_def valueOf_add_month ip ..
  have mb: "1 \<le> month_of b" "month_of b \<le> 12" using b by (simp_all add: wf_datetime_def)
  have B: "vb = (monthStart ib + date_of b - 1) * 86400000 + ms_of_day b"
    unfolding vb_def ib_def by (rule valueOf_monthStart [OF mb])
  have S1: "monthStart ib = monthStart (ib - 1) + monthLength (ib - 1)"
    using monthStart_Suc [of "ib - 1"] by simp
  have S2: "monthStart (ib + 1) = monthStart ib + monthLength ib"
    by (rule monthStart_Suc)
  have L: "28 \<le> monthLength (ib - 1)" "28 \<le> monthLength ib" "28 \<le> monthLength (ib + 1)"
    by (rule monthLength_bounds)+
  have ra: "1 \<le> date_of a" "0 \<le> ms_of_day a" "ms_of_day a < 86400000"
    using a by (simp_all add: wf_datetime_def MILLISECONDS_A_DAY_def)
  have rb: "1 \<le> date_of b" "date_of b \<le> monthLength ib" "0 \<le> ms_of_day b"
      "ms_of_day b < 86400000"
    using b daysInMonth_monthLength [OF mb]
    by (simp_all add: wf_datetime_def MILLISECONDS_A_DAY_def ib_def)
  have below: "vm < vb"
    unfolding Am B S1 by (rule day_less) (use L ra rb in linarith)+
  have above: "vb < vp"
    unfolding Ap B S2 by (rule day_less) (use L ra rb in linarith)+
  have md: "monthDiff a b =
      - (of_int w + of_int (vb - v0) / of_int (if vb - v0 < 0 then v0 - vm else vp - v0))"
    unfolding w_def v0_def vm_def vp_def vb_def by (rule monthDiff_unfold [OF dd])
  have neg: "of_int (monthIndex a - monthIndex b) = - (of_int w :: rat)"
    by (simp add: w_def)
  show "of_int (monthIndex a - monthIndex b) < monthDiff a b \<and>
      monthDiff a b < of_int (monthIndex a - monthIndex b) + 1"
    if "valueOf b < valueOf (add_month a (monthIndex b - monthIndex a))"
  proof -
    from that have lt: "vb - v0 < 0" by (simp add: vb_def v0_def w_def)
    moreover have "- (v0 - vm) < vb - v0" using below by linarith
    ultimately have "- 1 < (of_int (vb - v0) :: rat) / of_int (v0 - vm)"
        "(of_int (vb - v0) :: rat) / of_int (v0 - vm) < 0"
      by (rule frac_neg [rotated])+
    moreover have "monthDiff a b = - (of_int w + of_int (vb - v0) / of_int (v0 - vm))"
      unfolding md using lt by simp
    ultimately show ?thesis unfolding neg by linarith
  qed
  show "monthDiff a b = of_int (monthIndex a - monthIndex b)"
    if "valueOf b = valueOf (add_month a (monthIndex b - monthIndex a))"
  proof -
    from that have "vb - v0 = 0" by (simp add: vb_def v0_def w_def)
    then show ?thesis unfolding md neg by simp
  qed
  show "of_int (monthIndex a - monthIndex b) - 1 < monthDiff a b \<and>
      monthDiff a b < of_int (monthIndex a - monthIndex b)"
    if "valueOf (add_month a (monthIndex b - monthIndex a)) < valueOf b"
  proof -
    from that have gt: "0 < vb - v0" by (simp add: vb_def v0_def w_def)
    moreover have "vb - v0 < vp - v0" using above by linarith
    ultimately have "0 < (of_int (vb - v0) :: rat) / of_int (vp - v0)"
        "(of_int (vb - v0) :: rat) / of_int (vp - v0) < 1"
      by (rule frac_pos)+
    moreover have "monthDiff a b = - (of_int w + of_int (vb - v0) / of_int (vp - v0))"
      unfolding md using gt by simp
    ultimately show ?thesis unfolding neg by linarith
  qed
qed

text \<open>Dates compare as their months, then days, then times of day.\<close>

lemma div12:
  fixes q r :: int
  assumes "0 \<le> r" "r < 12"
  shows "(12 * q + r) div 12 = q"
  by (rule int_div_pos_eq [OF refl assms])

lemma wf_anniversary:
  assumes "wf_datetime b"
  shows "wf_datetime (anniversary b y)"
proof -
  have "28 \<le> daysInMonth y (month_of b)" by (simp add: daysInMonth_def)
  with assms show ?thesis
    by (simp add: wf_datetime_def anniversary_def)
qed

lemma valueOf_wf:
  assumes "wf_datetime d"
  shows "valueOf d = (monthStart (monthIndex d) + date_of d - 1) * 86400000 + ms_of_day d"
    and "1 \<le> date_of d" and "date_of d \<le> monthLength (monthIndex d)"
    and "0 \<le> ms_of_day d" and "ms_of_day d < 86400000"
proof -
  have m: "1 \<le> month_of d" "month_of d \<le> 12" using assms by (simp_all add: wf_datetime_def)
  show "valueOf d = (monthStart (monthIndex d) + date_of d - 1) * 86400000 + ms_of_day d"
    by (rule valueOf_monthStart [OF m])
  show "1 \<le> date_of d" "date_of d \<le> monthLength (monthIndex d)"
      "0 \<le> ms_of_day d" "ms_of_day d < 86400000"
    using assms daysInMonth_monthLength [OF m]
    by (simp_all add: wf_datetime_def MILLISECONDS_A_DAY_def)
qed

lemma valueOf_month_less:
  assumes "wf_datetime x" "wf_datetime z" "monthIndex x < monthIndex z"
  shows "valueOf x < valueOf z"
proof -
  have "monthStart (monthIndex x) + monthLength (monthIndex x) \<le> monthStart (monthIndex z)"
    using assms(3) by (rule monthStart_mono)
  then show ?thesis
    unfolding valueOf_wf(1) [OF assms(1)] valueOf_wf(1) [OF assms(2)]
    by (intro day_less) (use valueOf_wf(2-5) [OF assms(1)] valueOf_wf(2-5) [OF assms(2)] in linarith)+
qed

lemma valueOf_same_month:
  assumes "wf_datetime x" "wf_datetime z" "monthIndex x = monthIndex z"
  shows "valueOf x < valueOf z \<longleftrightarrow>
     date_of x < date_of z \<or> (date_of x = date_of z \<and> ms_of_day x < ms_of_day z)"
proof -
  consider "date_of x < date_of z" | "date_of x = date_of z" | "date_of z < date_of x"
    by linarith
  then show ?thesis
  proof cases
    case 1
    then have "valueOf x < valueOf z"
      unfolding valueOf_wf(1) [OF assms(1)] valueOf_wf(1) [OF assms(2)] assms(3)
      by (intro day_less)
        (use valueOf_wf(2-5) [OF assms(1)] valueOf_wf(2-5) [OF assms(2)] in linarith)+
    with 1 show ?thesis by simp
  next
    case 2
    then show ?thesis
      unfolding valueOf_wf(1) [OF assms(1)] valueOf_wf(1) [OF assms(2)] assms(3) by simp
  next
    case 3
    then have "valueOf z < valueOf x"
      unfolding valueOf_wf(1) [OF assms(1)] valueOf_wf(1) [OF assms(2)] assms(3)
      by (intro day_less)
        (use valueOf_wf(2-5) [OF assms(1)] valueOf_wf(2-5) [OF assms(2)] in linarith)+
    with 3 show ?thesis by simp
  qed
qed

text \<open>
  The whole months from a birth date at midnight to today, and from them the whole
  years.
\<close>

lemma monthDiff_swap:
  assumes "date_of a < date_of b"
  shows "monthDiff a b = - monthDiff b a"
  by (subst monthDiff.simps) (simp add: assms)

lemma monthIndex_le:
  assumes "wf_datetime x" "wf_datetime z" "valueOf x \<le> valueOf z"
  shows "monthIndex x \<le> monthIndex z"
proof (rule ccontr)
  assume "\<not> monthIndex x \<le> monthIndex z"
  then have "monthIndex z < monthIndex x" by simp
  from valueOf_month_less [OF assms(2,1) this] assms(3) show False by simp
qed

lemma monthDiff_whole_months:
  assumes t: "wf_datetime today" and b: "wf_datetime b" and m0: "ms_of_day b = 0"
    and past: "valueOf b \<le> valueOf today"
  defines "K \<equiv> monthIndex today - monthIndex b -
     (if date_of today < date_of b \<and>
         valueOf today < valueOf (add_month b (monthIndex today - monthIndex b))
      then 1 else 0)"
  shows "0 \<le> K" and "absFloor (monthDiff today b / 12) = K div 12"
proof -
  define it where "it = monthIndex today"
  define ib where "ib = monthIndex b"
  have ge: "ib \<le> it"
    unfolding it_def ib_def by (rule monthIndex_le [OF b t past])
  note tb = valueOf_wf [OF t]
  note bb = valueOf_wf [OF b]
  have "0 \<le> K \<and> absFloor (monthDiff today b / 12) = K div 12"
  proof (cases "date_of today < date_of b")
    case False
    then have dd: "date_of b \<le> date_of today" by simp
    have K: "K = it - ib" using False by (simp add: K_def it_def ib_def)
    have v0: "valueOf (add_month today (ib - it)) =
        (monthStart ib + min (date_of today) (monthLength ib) - 1) * 86400000 + ms_of_day today"
      by (simp add: valueOf_add_month it_def)
    have x: "(monthStart ib + date_of b - 1) * 86400000 \<le>
        (monthStart ib + min (date_of today) (monthLength ib) - 1) * 86400000"
      using dd bb(3) by (intro mult_right_mono) (simp_all add: ib_def)
    have "valueOf b = (monthStart ib + date_of b - 1) * 86400000"
      using bb(1) m0 by (simp add: ib_def)
    with x v0 tb(4) have le: "valueOf b \<le> valueOf (add_month today (ib - it))"
      by linarith
    have "of_int (it - ib) \<le> monthDiff today b \<and> monthDiff today b < of_int (it - ib) + 1"
    proof (cases "valueOf b = valueOf (add_month today (ib - it))")
      case True
      then show ?thesis
        using monthDiff_bracket(2) [OF t b dd] by (simp add: it_def ib_def)
    next
      case False
      with le have "valueOf b < valueOf (add_month today (ib - it))" by simp
      then show ?thesis
        using monthDiff_bracket(1) [OF t b dd] by (simp add: it_def ib_def)
    qed
    then have "absFloor (monthDiff today b / 12) = (it - ib) div 12"
      using ge by (intro absFloor_div12) simp_all
    with K ge show ?thesis by simp
  next
    case True
    then have dd: "date_of today \<le> date_of b" by simp
    have sw: "monthDiff today b = - monthDiff b today"
      using True by (rule monthDiff_swap)
    show ?thesis
    proof (cases "valueOf today < valueOf (add_month b (it - ib))")
      case lt: True
      have K: "K = it - ib - 1" using True lt by (simp add: K_def it_def ib_def)
      have "it \<noteq> ib"
      proof
        assume "it = ib"
        then have "valueOf (add_month b (it - ib)) = valueOf b"
          using bb(3) m0 by (simp add: valueOf_add_month bb(1) min_absorb1)
        with lt past show False by simp
      qed
      with ge have K0: "0 \<le> it - ib - 1" by linarith
      have "of_int (ib - it) < monthDiff b today \<and> monthDiff b today < of_int (ib - it) + 1"
        using monthDiff_bracket(1) [OF b t dd] lt by (simp add: it_def ib_def)
      then have "of_int (it - ib - 1) \<le> monthDiff today b \<and>
          monthDiff today b < of_int (it - ib - 1) + 1"
        unfolding sw by simp
      then have "absFloor (monthDiff today b / 12) = (it - ib - 1) div 12"
        using K0 by (intro absFloor_div12) simp_all
      with K K0 show ?thesis by simp
    next
      case nlt: False
      have K: "K = it - ib" using nlt by (simp add: K_def it_def ib_def)
      have "of_int (it - ib) \<le> monthDiff today b \<and> monthDiff today b < of_int (it - ib) + 1"
      proof (cases "valueOf today = valueOf (add_month b (it - ib))")
        case True
        then show ?thesis
          unfolding sw using monthDiff_bracket(2) [OF b t dd] by (simp add: it_def ib_def)
      next
        case False
        with nlt have "valueOf (add_month b (it - ib)) < valueOf today" by simp
        then have "of_int (ib - it) - 1 < monthDiff b today \<and>
            monthDiff b today < of_int (ib - it)"
          using monthDiff_bracket(3) [OF b t dd] by (simp add: it_def ib_def)
        then show ?thesis unfolding sw by simp
      qed
      then have "absFloor (monthDiff today b / 12) = (it - ib) div 12"
        using ge by (intro absFloor_div12) simp_all
      with K ge show ?thesis by simp
    qed
  qed
  then show "0 \<le> K" and "absFloor (monthDiff today b / 12) = K div 12" by simp_all
qed

lemma anniversary_fields:
  assumes "wf_datetime b"
  shows "monthIndex (anniversary b y) = y * 12 + (month_of b - 1)"
    and "date_of (anniversary b y) =
      min (date_of b) (monthLength (monthIndex (anniversary b y)))"
    and "ms_of_day (anniversary b y) = ms_of_day b"
proof -
  have m: "1 \<le> month_of (anniversary b y)" "month_of (anniversary b y) \<le> 12"
    using assms by (simp_all add: wf_datetime_def anniversary_def)
  show "monthIndex (anniversary b y) = y * 12 + (month_of b - 1)"
    by (simp add: monthIndex_def anniversary_def)
  have "daysInMonth y (month_of b) = monthLength (monthIndex (anniversary b y))"
    using daysInMonth_monthLength [OF m] by (simp add: anniversary_def)
  then show "date_of (anniversary b y) =
      min (date_of b) (monthLength (monthIndex (anniversary b y)))"
    by (simp add: anniversary_def)
  show "ms_of_day (anniversary b y) = ms_of_day b"
    by (simp add: anniversary_def)
qed

lemma monthDiff_wholeYears:
  assumes t: "wf_datetime today" and b: "wf_datetime b" and m0: "ms_of_day b = 0"
    and past: "valueOf b \<le> valueOf today"
  shows "absFloor (monthDiff today b / 12) = wholeYears today b"
proof -
  define an where "an = anniversary b (year_of today)"
  define c :: int where "c = (if date_of today < date_of b \<and>
         valueOf today < valueOf (add_month b (monthIndex today - monthIndex b))
      then 1 else 0)"
  define K where "K = monthIndex today - monthIndex b - c"
  have K0: "0 \<le> K" and KA: "absFloor (monthDiff today b / 12) = K div 12"
    unfolding K_def c_def by (rule monthDiff_whole_months [OF t b m0 past])+
  have c01: "c = 0 \<or> c = 1" by (simp add: c_def)
  have wa: "wf_datetime an" unfolding an_def by (rule wf_anniversary [OF b])
  note af = anniversary_fields [OF b, of "year_of today", folded an_def]
  have mt: "1 \<le> month_of today" "month_of today \<le> 12"
    and mb: "1 \<le> month_of b" "month_of b \<le> 12"
    using t b by (simp_all add: wf_datetime_def)
  have ia: "monthIndex an - monthIndex today = month_of b - month_of today"
    unfolding af(1) by (simp add: monthIndex_def)
  have Kx: "K = 12 * (year_of today - year_of b) + (month_of today - month_of b) - c"
    by (simp add: K_def monthIndex_def)
  have W: "wholeYears today b =
      year_of today - year_of b - (if valueOf today < valueOf an then 1 else 0)"
    using past by (simp add: wholeYears_def elapsedYears_def an_def)
  consider "month_of b < month_of today" | "month_of today < month_of b"
    | "month_of b = month_of today" by linarith
  then have "K div 12 = wholeYears today b"
  proof cases
    case 1
    then have "monthIndex an < monthIndex today" using ia by linarith
    then have "valueOf an < valueOf today" by (rule valueOf_month_less [OF wa t])
    then have w: "wholeYears today b = year_of today - year_of b" by (simp add: W)
    have "K = 12 * (year_of today - year_of b) + (month_of today - month_of b - c)"
      by (simp add: Kx)
    moreover have "0 \<le> month_of today - month_of b - c" "month_of today - month_of b - c < 12"
      using 1 c01 mt mb by linarith+
    ultimately show ?thesis using w by (simp only: div12)
  next
    case 2
    then have "monthIndex today < monthIndex an" using ia by linarith
    then have "valueOf today < valueOf an" by (rule valueOf_month_less [OF t wa])
    then have w: "wholeYears today b = year_of today - year_of b - 1" by (simp add: W)
    have "K = 12 * (year_of today - year_of b - 1) + (12 + month_of today - month_of b - c)"
      by (simp add: Kx algebra_simps)
    moreover have "0 \<le> 12 + month_of today - month_of b - c"
        "12 + month_of today - month_of b - c < 12"
      using 2 c01 mt mb by linarith+
    ultimately show ?thesis using w by (simp only: div12)
  next
    case 3
    then have same: "monthIndex an = monthIndex today" using ia by linarith
    have ib: "monthIndex b + (monthIndex today - monthIndex b) = monthIndex today" by simp
    have v0: "valueOf (add_month b (monthIndex today - monthIndex b)) = valueOf an"
      unfolding valueOf_add_month ib valueOf_wf(1) [OF wa] af(2,3) same ..
    have cmp: "valueOf today < valueOf an \<longleftrightarrow> c = 1"
    proof (cases "date_of today < date_of b")
      case True
      then show ?thesis by (simp add: c_def v0)
    next
      case False
      then have "c = 0" by (simp add: c_def)
      moreover have "\<not> valueOf today < valueOf an"
        unfolding valueOf_same_month [OF t wa same [symmetric]] af(2,3) m0
        using False valueOf_wf(4) [OF t] by auto
      ultimately show ?thesis by simp
    qed
    show ?thesis
    proof (cases "c = 1")
      case True
      then have w: "wholeYears today b = year_of today - year_of b - 1"
        using cmp by (simp add: W)
      have "K = 12 * (year_of today - year_of b - 1) + 11"
        using True 3 by (simp add: Kx)
      then show ?thesis using w by (simp only: div12)
    next
      case False
      then have c0: "c = 0" using c01 by simp
      then have w: "wholeYears today b = year_of today - year_of b"
        using cmp by (simp add: W)
      have "K = 12 * (year_of today - year_of b) + 0"
        using c0 3 by (simp add: Kx)
      then show ?thesis using w by (simp only: div12)
    qed
  qed
  with KA show ?thesis by simp
qed

text \<open>
  The same for a birth date after today: the whole months from today to the birth date,
  and from them the whole years, unless today is the 28 February before a leap day.
\<close>

lemma absFloor_neg_div12:
  fixes k :: int
  assumes "0 \<le> k" "- of_int k - 1 < x" "x \<le> - of_int k"
  shows "absFloor (x / 12) = - (k div 12)"
proof (cases "x < 0")
  case True
  have n: "k = 12 * (k div 12) + k mod 12" by simp
  have m: "0 \<le> k mod 12" "k mod 12 < 12" by simp_all
  have lo: "12 * (k div 12) \<le> k" using n m by linarith
  have hi: "k + 1 \<le> 12 * (k div 12) + 12" using n m by linarith
  have "(of_int (12 * (k div 12)) :: rat) \<le> of_int k" using lo by (simp only: of_int_le_iff)
  then have a: "x / 12 \<le> of_int (- (k div 12))" using assms(3) by simp
  have "(of_int (k + 1) :: rat) \<le> of_int (12 * (k div 12) + 12)"
    using hi by (simp only: of_int_le_iff)
  then have b: "of_int (- (k div 12)) - 1 < x / 12" using assms(2) by simp
  have "\<lceil>x / 12\<rceil> = - (k div 12)" using b a by (rule ceiling_unique)
  then show ?thesis using True by (simp add: absFloor_def)
next
  case False
  with assms(1,3) have "(of_int k :: rat) \<le> 0" by linarith
  then have "k \<le> 0" by simp
  with assms(1) have k: "k = 0" by simp
  with assms(3) False have "x = 0" by simp
  with k show ?thesis by (simp add: absFloor_def)
qed

lemma monthDiff_whole_months_future:
  assumes t: "wf_datetime today" and b: "wf_datetime b" and m0: "ms_of_day b = 0"
    and fut: "valueOf today < valueOf b"
  defines "K \<equiv> monthIndex b - monthIndex today -
     (if date_of today < date_of b
      then (if valueOf (add_month b (monthIndex today - monthIndex b)) < valueOf today
            then 1 else 0)
      else (if valueOf b < valueOf (add_month today (monthIndex b - monthIndex today))
            then 1 else 0))"
  shows "0 \<le> K" and "absFloor (monthDiff today b / 12) = - (K div 12)"
proof -
  define it where "it = monthIndex today"
  define ib where "ib = monthIndex b"
  have ge: "it \<le> ib"
    unfolding it_def ib_def using fut by (intro monthIndex_le [OF t b]) simp
  note tb = valueOf_wf [OF t]
  note bb = valueOf_wf [OF b]
  have "0 \<le> K \<and> absFloor (monthDiff today b / 12) = - (K div 12)"
  proof (cases "date_of today < date_of b")
    case False
    then have dd: "date_of b \<le> date_of today" by simp
    have v0: "valueOf (add_month today (ib - it)) =
        (monthStart ib + min (date_of today) (monthLength ib) - 1) * 86400000 + ms_of_day today"
      by (simp add: valueOf_add_month it_def)
    have x: "(monthStart ib + date_of b - 1) * 86400000 \<le>
        (monthStart ib + min (date_of today) (monthLength ib) - 1) * 86400000"
      using dd bb(3) by (intro mult_right_mono) (simp_all add: ib_def)
    have "valueOf b = (monthStart ib + date_of b - 1) * 86400000"
      using bb(1) m0 by (simp add: ib_def)
    with x v0 tb(4) have le: "valueOf b \<le> valueOf (add_month today (ib - it))"
      by linarith
    show ?thesis
    proof (cases "valueOf b = valueOf (add_month today (ib - it))")
      case True
      have K: "K = ib - it" using False True by (simp add: K_def it_def ib_def)
      have "monthDiff today b = - of_int (ib - it)"
        using monthDiff_bracket(2) [OF t b dd] True by (simp add: it_def ib_def)
      then have "absFloor (monthDiff today b / 12) = - ((ib - it) div 12)"
        using ge by (intro absFloor_neg_div12) simp_all
      with K ge show ?thesis by simp
    next
      case ne: False
      with le have lt: "valueOf b < valueOf (add_month today (ib - it))" by simp
      have K: "K = ib - it - 1" using False lt by (simp add: K_def it_def ib_def)
      have "it \<noteq> ib"
      proof
        assume "it = ib"
        then have "valueOf (add_month today (ib - it)) = valueOf today"
          using tb(3) by (simp add: valueOf_add_month tb(1) min_absorb1)
        with lt fut show False by simp
      qed
      with ge have K0: "0 \<le> ib - it - 1" by linarith
      have "of_int (it - ib) < monthDiff today b \<and> monthDiff today b < of_int (it - ib) + 1"
        using monthDiff_bracket(1) [OF t b dd] lt by (simp add: it_def ib_def)
      then have "- of_int (ib - it - 1) - 1 < monthDiff today b \<and>
          monthDiff today b \<le> - of_int (ib - it - 1)"
        by simp
      then have "absFloor (monthDiff today b / 12) = - ((ib - it - 1) div 12)"
        using K0 by (intro absFloor_neg_div12) simp_all
      with K K0 show ?thesis by simp
    qed
  next
    case True
    then have dd: "date_of today \<le> date_of b" by simp
    have sw: "monthDiff today b = - monthDiff b today"
      using True by (rule monthDiff_swap)
    show ?thesis
    proof (cases "valueOf (add_month b (it - ib)) < valueOf today")
      case gt: True
      have K: "K = ib - it - 1" using True gt by (simp add: K_def it_def ib_def)
      have "it \<noteq> ib"
      proof
        assume "it = ib"
        then have "valueOf (add_month b (it - ib)) = valueOf b"
          using bb(3) by (simp add: valueOf_add_month bb(1) min_absorb1)
        with gt fut show False by simp
      qed
      with ge have K0: "0 \<le> ib - it - 1" by linarith
      have "of_int (ib - it) - 1 < monthDiff b today \<and> monthDiff b today < of_int (ib - it)"
        using monthDiff_bracket(3) [OF b t dd] gt by (simp add: it_def ib_def)
      then have "- of_int (ib - it - 1) - 1 < monthDiff today b \<and>
          monthDiff today b \<le> - of_int (ib - it - 1)"
        unfolding sw by simp
      then have "absFloor (monthDiff today b / 12) = - ((ib - it - 1) div 12)"
        using K0 by (intro absFloor_neg_div12) simp_all
      with K K0 show ?thesis by simp
    next
      case ngt: False
      have K: "K = ib - it" using True ngt by (simp add: K_def it_def ib_def)
      have "- of_int (ib - it) - 1 < monthDiff today b \<and>
          monthDiff today b \<le> - of_int (ib - it)"
      proof (cases "valueOf today = valueOf (add_month b (it - ib))")
        case True
        then show ?thesis
          unfolding sw using monthDiff_bracket(2) [OF b t dd] by (simp add: it_def ib_def)
      next
        case False
        with ngt have "valueOf today < valueOf (add_month b (it - ib))" by simp
        then have "of_int (ib - it) < monthDiff b today \<and>
            monthDiff b today < of_int (ib - it) + 1"
          using monthDiff_bracket(1) [OF b t dd] by (simp add: it_def ib_def)
        then show ?thesis unfolding sw by simp
      qed
      then have "absFloor (monthDiff today b / 12) = - ((ib - it) div 12)"
        using ge by (intro absFloor_neg_div12) simp_all
      with K ge show ?thesis by simp
    qed
  qed
  then show "0 \<le> K" and "absFloor (monthDiff today b / 12) = - (K div 12)" by simp_all
qed

lemma daysInMonth_short:
  assumes "daysInMonth y m < d" "d \<le> daysInMonth y' m"
  shows "m = 2 \<and> d = 29 \<and> daysInMonth y m = 28 \<and> \<not> isLeapYear y"
  using assms by (auto simp: daysInMonth_def split: if_splits)

lemma monthDiff_elapsedYears_future:
  assumes t: "wf_datetime today" and b: "wf_datetime b" and m0: "ms_of_day b = 0"
    and fut: "valueOf today < valueOf b"
    and nl: "\<not> leapDayAhead today b"
  shows "absFloor (monthDiff today b / 12) = - elapsedYears today b"
proof -
  define an where "an = anniversary today (year_of b)"
  define v0A where "v0A = valueOf (add_month today (monthIndex b - monthIndex today))"
  define v0B where "v0B = valueOf (add_month b (monthIndex today - monthIndex b))"
  define c :: int where "c = (if date_of today < date_of b
      then (if v0B < valueOf today then 1 else 0)
      else (if valueOf b < v0A then 1 else 0))"
  define K where "K = monthIndex b - monthIndex today - c"
  have K0: "0 \<le> K" and KA: "absFloor (monthDiff today b / 12) = - (K div 12)"
    unfolding K_def c_def v0A_def v0B_def
    by (rule monthDiff_whole_months_future [OF t b m0 fut])+
  have c01: "c = 0 \<or> c = 1" by (simp add: c_def)
  have wa: "wf_datetime an" unfolding an_def by (rule wf_anniversary [OF t])
  note af = anniversary_fields [OF t, of "year_of b", folded an_def]
  note tb = valueOf_wf [OF t]
  note bb = valueOf_wf [OF b]
  have mt: "1 \<le> month_of today" "month_of today \<le> 12"
    and mb: "1 \<le> month_of b" "month_of b \<le> 12"
    using t b by (simp_all add: wf_datetime_def)
  have ia: "monthIndex an - monthIndex b = month_of today - month_of b"
    unfolding af(1) by (simp add: monthIndex_def)
  have Kx: "K = 12 * (year_of b - year_of today) + (month_of b - month_of today) - c"
    by (simp add: K_def monthIndex_def)
  have E: "elapsedYears today b =
      year_of b - year_of today - (if valueOf b < valueOf an then 1 else 0)"
    by (simp add: elapsedYears_def an_def)
  consider "month_of today < month_of b" | "month_of b < month_of today"
    | "month_of b = month_of today" by linarith
  then have "K div 12 = elapsedYears today b"
  proof cases
    case 1
    then have "monthIndex an < monthIndex b" using ia by linarith
    then have "valueOf an < valueOf b" by (rule valueOf_month_less [OF wa b])
    then have w: "elapsedYears today b = year_of b - year_of today" by (simp add: E)
    have "K = 12 * (year_of b - year_of today) + (month_of b - month_of today - c)"
      by (simp add: Kx)
    moreover have "0 \<le> month_of b - month_of today - c" "month_of b - month_of today - c < 12"
      using 1 c01 mt mb by linarith+
    ultimately show ?thesis using w by (simp only: div12)
  next
    case 2
    then have "monthIndex b < monthIndex an" using ia by linarith
    then have "valueOf b < valueOf an" by (rule valueOf_month_less [OF b wa])
    then have w: "elapsedYears today b = year_of b - year_of today - 1" by (simp add: E)
    have "K = 12 * (year_of b - year_of today - 1) + (12 + month_of b - month_of today - c)"
      by (simp add: Kx algebra_simps)
    moreover have "0 \<le> 12 + month_of b - month_of today - c"
        "12 + month_of b - month_of today - c < 12"
      using 2 c01 mt mb by linarith+
    ultimately show ?thesis using w by (simp only: div12)
  next
    case 3
    then have same: "monthIndex an = monthIndex b" using ia by linarith
    have cmp: "valueOf b < valueOf an \<longleftrightarrow> c = 1"
    proof (cases "date_of today < date_of b")
      case False
      have i: "monthIndex today + (monthIndex b - monthIndex today) = monthIndex b" by simp
      have "v0A = valueOf an"
        unfolding v0A_def valueOf_add_month i valueOf_wf(1) [OF wa] af(2,3) same ..
      with False show ?thesis by (simp add: c_def)
    next
      case True
      have n1: "\<not> valueOf b < valueOf an"
        unfolding valueOf_same_month [OF b wa same [symmetric]] af(2,3) same
        using True by auto
      have "\<not> v0B < valueOf today"
      proof
        assume lt: "v0B < valueOf today"
        have i: "monthIndex b + (monthIndex today - monthIndex b) = monthIndex today" by simp
        have v: "v0B = (monthStart (monthIndex today) +
            min (date_of b) (monthLength (monthIndex today)) - 1) * 86400000"
          unfolding v0B_def valueOf_add_month i using m0 by simp
        have "min (date_of b) (monthLength (monthIndex today)) \<le> date_of today"
        proof (rule ccontr)
          assume "\<not> min (date_of b) (monthLength (monthIndex today)) \<le> date_of today"
          then have "date_of today < min (date_of b) (monthLength (monthIndex today))"
            by linarith
          then have "(monthStart (monthIndex today) + date_of today - 1) * 86400000
              + ms_of_day today
            < (monthStart (monthIndex today) +
                min (date_of b) (monthLength (monthIndex today)) - 1) * 86400000 + 0"
            by (intro day_less) (use tb(5) in linarith)+
          with lt show False unfolding v tb(1) by simp
        qed
        with True tb(3) have L: "monthLength (monthIndex today) < date_of b"
            "date_of today = monthLength (monthIndex today)"
          by linarith+
        have Ld: "monthLength (monthIndex today) = daysInMonth (year_of today) (month_of b)"
          using daysInMonth_monthLength [OF mt] 3 by simp
        have "date_of b \<le> daysInMonth (year_of b) (month_of b)"
          using b by (simp add: wf_datetime_def)
        with L(1) Ld have sh: "month_of b = 2 \<and> date_of b = 29 \<and>
            daysInMonth (year_of today) (month_of b) = 28 \<and> \<not> isLeapYear (year_of today)"
          by (intro daysInMonth_short [of "year_of today" _ _ "year_of b"]) simp_all
        have mn: "min (date_of b) (monthLength (monthIndex today)) =
            monthLength (monthIndex today)"
          using L(1) by simp
        have "0 < ms_of_day today"
          using lt L(2) unfolding v tb(1) mn by simp
        moreover have "date_of today = 28" using sh L(2) Ld by linarith
        moreover have "month_of today = 2" using sh 3 by linarith
        ultimately have "leapDayAhead today b"
          unfolding leapDayAhead_def using sh fut by blast
        with nl show False by simp
      qed
      with True have "c = 0" by (simp add: c_def)
      with n1 show ?thesis by simp
    qed
    show ?thesis
    proof (cases "c = 1")
      case True
      then have w: "elapsedYears today b = year_of b - year_of today - 1"
        using cmp by (simp add: E)
      have "K = 12 * (year_of b - year_of today - 1) + 11"
        using True 3 by (simp add: Kx)
      then show ?thesis using w by (simp only: div12)
    next
      case False
      then have c0: "c = 0" using c01 by simp
      then have w: "elapsedYears today b = year_of b - year_of today"
        using cmp by (simp add: E)
      have "K = 12 * (year_of b - year_of today) + 0"
        using c0 3 by (simp add: Kx)
      then show ?thesis using w by (simp only: div12)
    qed
  qed
  with KA show ?thesis by simp
qed

lemma monthDiff_wholeYears_all:
  assumes t: "wf_datetime today" and b: "wf_datetime b" and m0: "ms_of_day b = 0"
    and nl: "\<not> leapDayAhead today b"
  shows "absFloor (monthDiff today b / 12) = wholeYears today b"
proof (cases "valueOf b \<le> valueOf today")
  case True
  then show ?thesis by (rule monthDiff_wholeYears [OF t b m0])
next
  case False
  then have fut: "valueOf today < valueOf b" by simp
  from monthDiff_elapsedYears_future [OF t b m0 fut nl] False
  show ?thesis by (simp add: wholeYears_def)
qed

section \<open>The filter of getUpcomingBirthdays\<close>

lemma isUpcoming_truthy: "isUpcoming parse today p \<Longrightarrow> truthy (birthday p)"
  by (simp add: isUpcoming_def split: if_splits)

lemma num_le_Num: "num_le x (Num k) \<Longrightarrow> \<exists>v. x = Num v \<and> v \<le> k"
  by (cases x) simp_all

lemma diff_day_Num: "diff_day x y = Num v \<Longrightarrow> \<exists>a b. x = Valid a \<and> y = Valid b"
  by (cases x; cases y) simp_all

lemma isUpcoming_valid:
  "isUpcoming parse today p \<Longrightarrow> \<exists>d. nextBirthday parse today (birthday p) = Valid d"
  by (auto simp: isUpcoming_def split: if_splits dest!: num_le_Num diff_day_Num)

lemma nextBirthday_eq:
  "nextBirthday parse today b = set_year (dayjs parse today b) (year_of today)"
  by (simp add: nextBirthday_def Let_def)

lemma set_year_Valid: "set_year x y = Valid d \<Longrightarrow> \<exists>e. x = Valid e"
  by (cases x) simp_all

lemma isUpcoming_parsed:
  "isUpcoming parse today p \<Longrightarrow> \<exists>d. dayjs parse today (birthday p) = Valid d"
  by (auto simp: nextBirthday_eq dest!: isUpcoming_valid set_year_Valid)

lemma compareNext_valid:
  assumes "isUpcoming parse today a" "isUpcoming parse today b"
  shows "compareNext parse today a b = Num (nextValue parse today a - nextValue parse today b)"
  using isUpcoming_valid [OF assms(1)] isUpcoming_valid [OF assms(2)]
  by (auto simp: compareNext_def nextValue_def)

lemma daysUntil_mono:
  assumes "isUpcoming parse today a" "isUpcoming parse today b"
    and "nextValue parse today a \<le> nextValue parse today b"
  shows "num_le (daysUntil parse today a) (daysUntil parse today b)"
proof -
  obtain da db where d: "nextBirthday parse today (birthday a) = Valid da"
      "nextBirthday parse today (birthday b) = Valid db"
    using isUpcoming_valid [OF assms(1)] isUpcoming_valid [OF assms(2)] by auto
  with assms(3) have "valueOf da \<le> valueOf db" by (simp add: nextValue_def)
  then have "(of_int (valueOf da - valueOf today) :: rat) / of_int MILLISECONDS_A_DAY
      \<le> of_int (valueOf db - valueOf today) / of_int MILLISECONDS_A_DAY"
    by (simp add: MILLISECONDS_A_DAY_def divide_right_mono)
  then show ?thesis
    using d by (simp add: daysUntil_def absFloor_mono)
qed

lemma daysUntil_same_day:
  assumes "wf_datetime today" "dayjs parse today (birthday p) = Valid b" "wf_datetime b"
    and "month_of b = month_of today" "date_of b = date_of today"
  shows "daysUntil parse today p = Num 0"
proof -
  let ?n = "b\<lparr>year_of := year_of today,
      date_of := min (date_of b) (daysInMonth (year_of today) (month_of b))\<rparr>"
  have n: "nextBirthday parse today (birthday p) = Valid ?n"
    using assms(2) by (simp add: nextBirthday_eq)
  have "date_of today \<le> daysInMonth (year_of today) (month_of today)"
    using assms(1) by (simp add: wf_datetime_def)
  then have v: "valueOf ?n - valueOf today = ms_of_day b - ms_of_day today"
    using assms(4,5) by (simp add: valueOf_def)
  have "- MILLISECONDS_A_DAY < ms_of_day b - ms_of_day today"
    "ms_of_day b - ms_of_day today < MILLISECONDS_A_DAY"
    using assms(1,3) by (simp_all add: wf_datetime_def)
  then have "absFloor (of_int (ms_of_day b - ms_of_day today) / of_int MILLISECONDS_A_DAY) = 0"
    by (rule absFloor_small)
  then have "absFloor (of_int (valueOf ?n - valueOf today) / of_int MILLISECONDS_A_DAY) = 0"
    by (simp only: v)
  with n show ?thesis by (simp add: daysUntil_def)
qed

section \<open>getAge and the year of birth\<close>

lemma set_year_anniversary: "set_year (Valid b) y = Valid (anniversary b y)"
  by (simp add: anniversary_def)

lemma diff_year_Num: "\<exists>n. diff_year x y = Num n"
  by (cases x; cases y) simp_all

lemma getAge_wholeYears:
  assumes "wf_datetime today" "truthy v" "dayjs parse today v = Valid b" "wf_datetime b"
    and "ms_of_day b = 0" "valueOf b \<le> valueOf today"
  shows "getAge parse today v = Age (Num (wholeYears today b))"
  using assms(2,3) monthDiff_wholeYears [OF assms(1,4,5,6)]
  by (simp add: getAge_def Let_def)

lemma getAge_wholeYears_all:
  assumes "wf_datetime today" "truthy v" "dayjs parse today v = Valid b" "wf_datetime b"
    and "ms_of_day b = 0" "\<not> leapDayAhead today b"
  shows "getAge parse today v = Age (Num (wholeYears today b))"
  using assms(2,3) monthDiff_wholeYears_all [OF assms(1,4,5,6)]
  by (simp add: getAge_def Let_def)

lemma anniversary_same_year:
  assumes "wf_datetime b"
  shows "anniversary b (year_of b) = b"
  using assms by (simp add: anniversary_def wf_datetime_def min_absorb1)

lemma wholeYears_first_year:
  assumes t: "wf_datetime today" and b: "wf_datetime b"
    and past: "valueOf b \<le> valueOf today"
    and less: "valueOf today < valueOf (anniversary b (year_of b + 1))"
  shows "wholeYears today b = 0"
proof -
  define e where "e = anniversary b (year_of b + 1)"
  have we: "wf_datetime e" unfolding e_def by (rule wf_anniversary [OF b])
  have mt: "1 \<le> month_of today" "month_of today \<le> 12"
    and mb: "1 \<le> month_of b" "month_of b \<le> 12"
    using t b by (simp_all add: wf_datetime_def)
  have "monthIndex b \<le> monthIndex today" by (rule monthIndex_le [OF b t past])
  then have lo: "year_of b \<le> year_of today"
    using mt mb by (simp add: monthIndex_def)
  have "valueOf today \<le> valueOf e" using less by (simp add: e_def)
  then have "monthIndex today \<le> monthIndex e" by (rule monthIndex_le [OF t we])
  then have hi: "year_of today \<le> year_of b + 1"
    using mt mb by (simp add: monthIndex_def e_def anniversary_def)
  from lo hi consider "year_of today = year_of b" | "year_of today = year_of b + 1"
    by linarith
  then show ?thesis
  proof cases
    case 1
    then show ?thesis
      using past anniversary_same_year [OF b] by (simp add: wholeYears_def elapsedYears_def)
  next
    case 2
    then show ?thesis
      using past less by (simp add: wholeYears_def elapsedYears_def)
  qed
qed

lemma getUpcomingBirthdays_cong:
  assumes "\<forall>s. set_year (parse' s) (year_of today) = set_year (parse s) (year_of today)"
  shows "getUpcomingBirthdays parse' today ps = getUpcomingBirthdays parse today ps"
proof -
  have n: "nextBirthday parse' today v = nextBirthday parse today v" for v
    using assms by (cases v) (simp_all add: nextBirthday_eq)
  have "isUpcoming parse' today = isUpcoming parse today"
    by (rule ext) (simp add: isUpcoming_def n)
  moreover have "compareNext parse' today = compareNext parse today"
    by (intro ext) (simp add: compareNext_def n)
  ultimately show ?thesis by (simp add: getUpcomingBirthdays_def)
qed

lemma leap_2000_2024: "daysInMonth 2000 m = daysInMonth 2024 m"
  by (simp add: daysInMonth_def isLeapYear_def)


section \<open>The claims\<close>

text \<open>
  C1, at the input the specification itself gives (today 2024-06-01, a contact born
  1990-05-20): the date that \<open>getUpcomingBirthdays\<close> computes for Bob is 2024-05-20. It
  is before today, and the date one year later, 2025-05-20, is what the dropped call
  to \<open>add\<close> returned. The computed next occurrence is not re-anchored and lies before
  today.
\<close>

theorem next_occurrence_not_reanchored:
  "nextBirthday parse_ymd june1 (birthday bob) =
     Valid \<lparr>year_of = 2024, month_of = 5, date_of = 20, ms_of_day = 0\<rparr> \<and>
   isBefore (nextBirthday parse_ymd june1 (birthday bob)) (Valid june1) \<and>
   add_year (nextBirthday parse_ymd june1 (birthday bob)) 1 =
     Valid \<lparr>year_of = 2025, month_of = 5, date_of = 20, ms_of_day = 0\<rparr>"
  by code_simp

text \<open>
  C2, at the same input: Bob, whose birthday was twelve days ago, and Frank, whose
  birthday was yesterday, are both in the result, ahead of Alice; their days-until are
  -12 and -1, outside the range from 0 to 30.
\<close>

theorem past_birthdays_included:
  "getUpcomingBirthdays parse_ymd june1 [alice, bob, frank] = [bob, frank, alice] \<and>
   daysUntil parse_ymd june1 bob = Num (- 12) \<and>
   daysUntil parse_ymd june1 frank = Num (- 1) \<and>
   daysUntil parse_ymd june1 alice = Num 13"
  by code_simp

text \<open>
  C3, on 2024-12-20 with birthdays on 25 December, 5 January and 15 January: the result
  of \<open>getUpcomingBirthdays\<close> is Judy, Karl, Ivan. The comparator orders by the dates in
  the current year (5 and 15 January 2024, then 25 December 2024), because the objects
  its two calls to \<open>add\<close> return are dropped (lines 99 and 100). The next occurrences
  are 15, 25 and 4 days ahead, so the result is not in ascending order of days until
  the next occurrence.
\<close>

theorem order_not_by_next_occurrence:
  "getUpcomingBirthdays parse_ymd dec20 [ivan, judy, karl] = [judy, karl, ivan] \<and>
   isBefore (nextBirthday parse_ymd dec20 (birthday judy)) (Valid dec20) \<and>
   diff_day (add_year (nextBirthday parse_ymd dec20 (birthday judy)) 1) (Valid dec20) = Num 15 \<and>
   isBefore (nextBirthday parse_ymd dec20 (birthday karl)) (Valid dec20) \<and>
   diff_day (add_year (nextBirthday parse_ymd dec20 (birthday karl)) 1) (Valid dec20) = Num 25 \<and>
   \<not> isBefore (nextBirthday parse_ymd dec20 (birthday ivan)) (Valid dec20) \<and>
   diff_day (nextBirthday parse_ymd dec20 (birthday ivan)) (Valid dec20) = Num 4 \<and>
   map (daysUntil parse_ymd dec20) [judy, karl, ivan] = [Num (- 350), Num (- 340), Num 4]"
  by code_simp

text \<open>
  C4: a contact whose birthday is absent (\<open>undefined\<close>, \<open>null\<close> or the empty string) is
  not in the result of \<open>getUpcomingBirthdays\<close>, whatever the current date. The horizon
  is the constant 30 of the source.
\<close>

theorem no_birthday_excluded:
  "\<not> truthy (birthday p) \<Longrightarrow> p \<notin> set (getUpcomingBirthdays parse today ps)"
  by (auto simp: set_getUpcomingBirthdays dest: isUpcoming_truthy)

theorem no_birthday_excluded_witness:
  "\<not> truthy (birthday carol) \<and> carol \<in> set [alice, carol] \<and>
   carol \<notin> set (getUpcomingBirthdays parse_ymd june1 [alice, carol])"
  using no_birthday_excluded [of carol parse_ymd june1 "[alice, carol]"]
  by (simp add: carol_def contact_def)

text \<open>
  C5: a contact whose birthday has today's month and day has days-until 0, is in the
  result of \<open>getUpcomingBirthdays\<close>, and its card is labelled \<open>Today!\<close>.
\<close>

theorem birthday_today:
  assumes "wf_datetime today" "p \<in> set ps" "truthy (birthday p)"
    and "dayjs parse today (birthday p) = Valid b" "wf_datetime b"
    and "month_of b = month_of today" "date_of b = date_of today"
  shows "daysUntil parse today p = Num 0 \<and>
     p \<in> set (getUpcomingBirthdays parse today ps) \<and>
     daysLabel parse today p = ''Today!''"
proof -
  have d: "daysUntil parse today p = Num 0"
    using assms(1,4-7) by (rule daysUntil_same_day)
  then have "isUpcoming parse today p"
    using assms(3) by (simp add: isUpcoming_def daysUntil_def)
  with assms(2) have "p \<in> set (getUpcomingBirthdays parse today ps)"
    by (simp add: set_getUpcomingBirthdays)
  with d show ?thesis by (simp add: daysLabel_def)
qed

theorem birthday_today_witness:
  "wf_datetime june1 \<and> erin \<in> set [alice, erin] \<and> truthy (birthday erin) \<and>
   dayjs parse_ymd june1 (birthday erin) =
     Valid \<lparr>year_of = 1985, month_of = 6, date_of = 1, ms_of_day = 0\<rparr> \<and>
   daysUntil parse_ymd june1 erin = Num 0 \<and>
   erin \<in> set (getUpcomingBirthdays parse_ymd june1 [alice, erin]) \<and>
   daysLabel parse_ymd june1 erin = ''Today!''"
proof -
  let ?b = "\<lparr>year_of = 1985, month_of = 6, date_of = 1, ms_of_day = 0\<rparr>"
  have h1: "wf_datetime june1" by code_simp
  have h2: "erin \<in> set [alice, erin]" by simp
  have h3: "truthy (birthday erin)" by code_simp
  have h4: "dayjs parse_ymd june1 (birthday erin) = Valid ?b" by code_simp
  have h5: "wf_datetime ?b" by code_simp
  have h6: "month_of ?b = month_of june1" by code_simp
  have h7: "date_of ?b = date_of june1" by code_simp
  from birthday_today [OF h1 h2 h3 h4 h5 h6 h7] h1 h2 h3 h4 show ?thesis by blast
qed

text \<open>
  C6: \<open>getUpcomingBirthdays\<close> is a total function of the list of contacts: no step of
  it throws, an invalid date giving \<open>NaN\<close> and \<open>false\<close> instead. The contacts whose
  birthday is missing or does not parse make no difference to the result, and none of
  them is in it.
\<close>

theorem unusable_birthdays_omitted:
  "getUpcomingBirthdays parse today ps =
     getUpcomingBirthdays parse today
       (filter (\<lambda>p. truthy (birthday p) \<and> dayjs parse today (birthday p) \<noteq> Invalid) ps) \<and>
   (\<forall>p. \<not> truthy (birthday p) \<or> dayjs parse today (birthday p) = Invalid \<longrightarrow>
      p \<notin> set (getUpcomingBirthdays parse today ps))"
proof -
  have keep: "isUpcoming parse today p \<Longrightarrow>
      truthy (birthday p) \<and> dayjs parse today (birthday p) \<noteq> Invalid" for p
    using isUpcoming_truthy [of parse today p] isUpcoming_parsed [of parse today p] by auto
  have "filter (isUpcoming parse today)
          (filter (\<lambda>p. truthy (birthday p) \<and> dayjs parse today (birthday p) \<noteq> Invalid) ps) =
        filter (isUpcoming parse today) ps"
    by (induction ps) (auto dest: keep)
  then show ?thesis
    by (auto simp: getUpcomingBirthdays_def set_array_sort dest: keep)
qed

theorem unusable_birthdays_omitted_witness:
  "truthy (birthday dave) \<and> dayjs parse_ymd june1 (birthday dave) = Invalid \<and>
   dave \<in> set [dave, alice, carol] \<and>
   dave \<notin> set (getUpcomingBirthdays parse_ymd june1 [dave, alice, carol]) \<and>
   getUpcomingBirthdays parse_ymd june1 [dave, alice, carol] = [alice]"
proof -
  have h1: "truthy (birthday dave)" by code_simp
  have h2: "dayjs parse_ymd june1 (birthday dave) = Invalid" by code_simp
  have h3: "getUpcomingBirthdays parse_ymd june1 [dave, alice, carol] = [alice]" by code_simp
  from unusable_birthdays_omitted [of parse_ymd june1 "[dave, alice, carol]"] h2
  have "dave \<notin> set (getUpcomingBirthdays parse_ymd june1 [dave, alice, carol])" by blast
  with h1 h2 h3 show ?thesis by simp
qed

text \<open>
  C7: when \<open>Person.list\<close> throws, or returns a response that is not successful,
  \<open>loadPeople\<close> leaves the list of people of the component as it was.
\<close>

theorem failed_load_keeps_people:
  "outcome = Throws \<or> (\<exists>r. outcome = Returns r \<and> \<not> success r) \<Longrightarrow>
     people (loadPeople st outcome) = people st"
  by (auto simp: loadPeople_def Let_def)

theorem failed_load_keeps_people_witness:
  "people (loadPeople loaded Throws) = [alice] \<and>
   people (loadPeople loaded (Returns \<lparr>success = False, data = [bob]\<rparr>)) = [alice] \<and>
   people (loadPeople loaded (Returns \<lparr>success = True, data = [bob]\<rparr>)) = [bob]"
  using failed_load_keeps_people [of Throws loaded]
    failed_load_keeps_people [of "Returns \<lparr>success = False, data = [bob]\<rparr>" loaded]
  by (simp add: loaded_def loadPeople_def)

text \<open>
  C8, as stated, fails when today is 2023-02-28 at 10:30 and the birth date is
  2028-02-29: five years after today is 2028-02-28 at 10:30, still before the birth
  date, so the difference in whole years is -5, and \<open>getAge\<close> returns -4.
\<close>

theorem age_not_whole_years_leap_day:
  "wf_datetime feb28 \<and> truthy (Str ''2028-02-29'') \<and>
   dayjs parse_ymd feb28 (Str ''2028-02-29'') =
     Valid \<lparr>year_of = 2028, month_of = 2, date_of = 29, ms_of_day = 0\<rparr> \<and>
   add_year (Valid feb28) 5 =
     Valid \<lparr>year_of = 2028, month_of = 2, date_of = 28, ms_of_day = 37800000\<rparr> \<and>
   isBefore (add_year (Valid feb28) 5)
     (Valid \<lparr>year_of = 2028, month_of = 2, date_of = 29, ms_of_day = 0\<rparr>) \<and>
   wholeYears feb28 \<lparr>year_of = 2028, month_of = 2, date_of = 29, ms_of_day = 0\<rparr> = - 5 \<and>
   getAge parse_ymd feb28 (Str ''2028-02-29'') = Age (Num (- 4)) \<and>
   getAge parse_ymd feb28 (Str ''2028-02-29'') \<noteq>
     Age (Num (wholeYears feb28 \<lparr>year_of = 2028, month_of = 2, date_of = 29, ms_of_day = 0\<rparr>))"
  by code_simp

text \<open>
  C8, amended: for a birthday that is a calendar date, before or after today, \<open>getAge\<close>
  is the difference in whole years between today and the birth date, unless today is
  28 February of a year that is no leap year, after midnight, and the birth date is a
  29 February still to come. The result of \<open>getUpcomingBirthdays\<close> does not depend on
  the year of birth, hence not on the age: two readings of the birthdays that agree
  once the year is replaced by the current year give the same result.
\<close>

theorem age_is_whole_years:
  assumes "wf_datetime today" "truthy v" "dayjs parse today v = Valid b" "wf_datetime b"
    and "ms_of_day b = 0" "\<not> leapDayAhead today b"
  shows "getAge parse today v = Age (Num (wholeYears today b)) \<and>
     ((\<forall>s. set_year (parse' s) (year_of today) = set_year (parse s) (year_of today)) \<longrightarrow>
        getUpcomingBirthdays parse' today ps = getUpcomingBirthdays parse today ps)"
  using getAge_wholeYears_all [OF assms] getUpcomingBirthdays_cong [of parse' today parse ps]
  by blast

theorem age_is_whole_years_witness:
  "wf_datetime june1 \<and> truthy (Str ''2030-01-01'') \<and>
   dayjs parse_ymd june1 (Str ''2030-01-01'') =
     Valid \<lparr>year_of = 2030, month_of = 1, date_of = 1, ms_of_day = 0\<rparr> \<and>
   \<not> leapDayAhead june1 \<lparr>year_of = 2030, month_of = 1, date_of = 1, ms_of_day = 0\<rparr> \<and>
   getAge parse_ymd june1 (Str ''2030-01-01'') = Age (Num (- 5)) \<and>
   wholeYears june1 \<lparr>year_of = 2030, month_of = 1, date_of = 1, ms_of_day = 0\<rparr> = - 5 \<and>
   getAge parse_ymd june1 (Str ''2024-06-02'') = Age (Num 0) \<and>
   wholeYears june1 \<lparr>year_of = 2024, month_of = 6, date_of = 2, ms_of_day = 0\<rparr> = 0 \<and>
   getAge parse_ymd june1 (birthday bob) = Age (Num 34) \<and>
   wholeYears june1 \<lparr>year_of = 1990, month_of = 5, date_of = 20, ms_of_day = 0\<rparr> = 34 \<and>
   getAge (\<lambda>s. set_year (parse_ymd s) 2000) june1 (birthday bob) = Age (Num 24) \<and>
   getUpcomingBirthdays (\<lambda>s. set_year (parse_ymd s) 2000) june1 [heidi, alice, bob] =
     getUpcomingBirthdays parse_ymd june1 [heidi, alice, bob]"
proof -
  let ?b = "\<lparr>year_of = 2030, month_of = 1, date_of = 1, ms_of_day = 0\<rparr>"
  let ?p = "\<lambda>s. set_year (parse_ymd s) 2000"
  have h1: "wf_datetime june1" by code_simp
  have h2: "truthy (Str ''2030-01-01'')" by simp
  have h3: "dayjs parse_ymd june1 (Str ''2030-01-01'') = Valid ?b" by code_simp
  have h4: "wf_datetime ?b" by code_simp
  have h5: "ms_of_day ?b = 0" by simp
  have h6: "\<not> leapDayAhead june1 ?b" by (simp add: leapDayAhead_def)
  have w: "wholeYears june1 ?b = - 5" by code_simp
  have e1: "getAge parse_ymd june1 (Str ''2024-06-02'') = Age (Num 0)" by code_simp
  have e2: "wholeYears june1 \<lparr>year_of = 2024, month_of = 6, date_of = 2, ms_of_day = 0\<rparr> = 0"
    by code_simp
  have e3: "getAge parse_ymd june1 (birthday bob) = Age (Num 34)" by code_simp
  have e4: "wholeYears june1 \<lparr>year_of = 1990, month_of = 5, date_of = 20, ms_of_day = 0\<rparr> = 34"
    by code_simp
  have g: "getAge ?p june1 (birthday bob) = Age (Num 24)" by code_simp
  have y: "year_of june1 = 2024" by (simp add: june1_def)
  have "set_year (set_year x 2000) 2024 = set_year x 2024" for x
    by (cases x) (simp_all add: leap_2000_2024)
  then have h7: "\<forall>s. set_year (?p s) (year_of june1) = set_year (parse_ymd s) (year_of june1)"
    by (simp add: y)
  from age_is_whole_years [OF h1 h2 h3 h4 h5 h6, of ?p "[heidi, alice, bob]"] h7 w
  have "getAge parse_ymd june1 (Str ''2030-01-01'') = Age (Num (- 5)) \<and>
      getUpcomingBirthdays ?p june1 [heidi, alice, bob] =
        getUpcomingBirthdays parse_ymd june1 [heidi, alice, bob]"
    by simp
  with h1 h2 h3 h6 w e1 e2 e3 e4 g show ?thesis by blast
qed

text \<open>
  C9: the result of \<open>getUpcomingBirthdays\<close> holds contacts of the input list only, each
  at most as often as the input does, and each with a birthday that is present.
\<close>

theorem result_is_part_of_input:
  "mset (getUpcomingBirthdays parse today ps) \<subseteq># mset ps \<and>
   (\<forall>p \<in> set (getUpcomingBirthdays parse today ps). p \<in> set ps \<and> truthy (birthday p))"
  by (auto simp: getUpcomingBirthdays_def mset_array_sort set_array_sort
      dest: isUpcoming_truthy)

theorem result_is_part_of_input_witness:
  "getUpcomingBirthdays parse_ymd june1 [heidi, alice, carol, erin] = [erin, alice] \<and>
   mset (getUpcomingBirthdays parse_ymd june1 [heidi, alice, carol, erin])
     \<subseteq># mset [heidi, alice, carol, erin] \<and>
   erin \<in> set [heidi, alice, carol, erin] \<and> truthy (birthday erin)"
proof -
  have h: "getUpcomingBirthdays parse_ymd june1 [heidi, alice, carol, erin] = [erin, alice]"
    by code_simp
  then have "erin \<in> set (getUpcomingBirthdays parse_ymd june1 [heidi, alice, carol, erin])"
    by simp
  with result_is_part_of_input [of parse_ymd june1 "[heidi, alice, carol, erin]"] h
  show ?thesis by blast
qed

text \<open>
  C10: \<open>getAge\<close> returns \<open>null\<close> exactly when the birthday is absent (\<open>undefined\<close>,
  \<open>null\<close> or the empty string); for a birthday that is present it returns a number,
  and the number is 0 for a birth date less than one whole year before today.
\<close>

theorem getAge_null_iff_absent:
  "(getAge parse today v = NoAge \<longleftrightarrow> \<not> truthy v) \<and>
   (truthy v \<longrightarrow> (\<exists>n. getAge parse today v = Age (Num n))) \<and>
   (truthy v \<and> wf_datetime today \<and> dayjs parse today v = Valid b \<and> wf_datetime b \<and>
    ms_of_day b = 0 \<and> valueOf b \<le> valueOf today \<and>
    valueOf today < valueOf (anniversary b (year_of b + 1))
      \<longrightarrow> getAge parse today v = Age (Num 0))"
proof (intro conjI impI)
  show "getAge parse today v = NoAge \<longleftrightarrow> \<not> truthy v"
    by (simp add: getAge_def Let_def)
  show "\<exists>n. getAge parse today v = Age (Num n)" if "truthy v"
    using that diff_year_Num [of "Valid today" "dayjs parse today v"]
    by (simp add: getAge_def Let_def)
  show "getAge parse today v = Age (Num 0)"
    if "truthy v \<and> wf_datetime today \<and> dayjs parse today v = Valid b \<and> wf_datetime b \<and>
      ms_of_day b = 0 \<and> valueOf b \<le> valueOf today \<and>
      valueOf today < valueOf (anniversary b (year_of b + 1))"
  proof -
    from that have "wholeYears today b = 0"
      by (intro wholeYears_first_year) simp_all
    moreover from that have "getAge parse today v = Age (Num (wholeYears today b))"
      by (intro getAge_wholeYears) simp_all
    ultimately show ?thesis by simp
  qed
qed

theorem getAge_null_iff_absent_witness:
  "getAge parse_ymd june1 Null = NoAge \<and> getAge parse_ymd june1 Undefined = NoAge \<and>
   getAge parse_ymd june1 (Str '''') = NoAge \<and>
   getAge parse_ymd june1 (Str ''1990-05-20'') = Age (Num 34) \<and>
   truthy (Str ''2023-06-02'') \<and>
   dayjs parse_ymd june1 (Str ''2023-06-02'') =
     Valid \<lparr>year_of = 2023, month_of = 6, date_of = 2, ms_of_day = 0\<rparr> \<and>
   valueOf \<lparr>year_of = 2023, month_of = 6, date_of = 2, ms_of_day = 0\<rparr> \<le> valueOf june1 \<and>
   valueOf june1 <
     valueOf (anniversary \<lparr>year_of = 2023, month_of = 6, date_of = 2, ms_of_day = 0\<rparr> 2024) \<and>
   getAge parse_ymd june1 (Str ''2023-06-02'') = Age (Num 0)"
proof -
  let ?b = "\<lparr>year_of = 2023, month_of = 6, date_of = 2, ms_of_day = 0\<rparr>"
  have h1: "truthy (Str ''2023-06-02'')" by simp
  have h2: "wf_datetime june1" by code_simp
  have h3: "dayjs parse_ymd june1 (Str ''2023-06-02'') = Valid ?b" by code_simp
  have h4: "wf_datetime ?b" by code_simp
  have h5: "ms_of_day ?b = 0" by simp
  have h6: "valueOf ?b \<le> valueOf june1" by code_simp
  have h7: "valueOf june1 < valueOf (anniversary ?b 2024)" by code_simp
  have h7': "valueOf june1 < valueOf (anniversary ?b (year_of ?b + 1))" using h7 by simp
  have a: "getAge parse_ymd june1 Null = NoAge" "getAge parse_ymd june1 Undefined = NoAge"
      "getAge parse_ymd june1 (Str '''') = NoAge"
    using getAge_null_iff_absent [of parse_ymd june1 Null] getAge_null_iff_absent [of parse_ymd june1 Undefined]
      getAge_null_iff_absent [of parse_ymd june1 "Str ''''"] by simp_all
  have c: "getAge parse_ymd june1 (Str ''1990-05-20'') = Age (Num 34)" by code_simp
  from getAge_null_iff_absent [of parse_ymd june1 "Str ''2023-06-02''" ?b] h1 h2 h3 h4 h5 h6 h7'
  have "getAge parse_ymd june1 (Str ''2023-06-02'') = Age (Num 0)" by blast
  with a c h1 h3 h6 h7 show ?thesis by blast
qed

section \<open>What the filter and the date are\<close>

text \<open>
  A contact is in the result of \<open>getUpcomingBirthdays\<close> exactly when it is in the list,
  has a birthday, and the days from today to its birth month and day in the current
  year are at most 30. There is no lower bound.
\<close>

theorem upcoming_membership:
  "p \<in> set (getUpcomingBirthdays parse today ps) \<longleftrightarrow>
     p \<in> set ps \<and> truthy (birthday p) \<and> num_le (daysUntil parse today p) (Num 30)"
  by (auto simp: set_getUpcomingBirthdays isUpcoming_def daysUntil_def)

text \<open>
  The order of the result is the order of the birth months and days within the current
  year: it is ascending in the days-until that the component computes from the date
  in the current year and shows on the card, which is negative for a date that has
  passed.
\<close>

theorem upcoming_sorted_by_days_until:
  "sorted_wrt (\<lambda>a b. num_le (daysUntil parse today a) (daysUntil parse today b))
     (getUpcomingBirthdays parse today ps)"
proof -
  let ?xs = "filter (isUpcoming parse today) ps"
  have "sorted_wrt (\<lambda>a b. nextValue parse today a \<le> nextValue parse today b)
      (array_sort (compareNext parse today) ?xs)"
    by (rule sorted_array_sort) (simp add: compareNext_valid)
  then show ?thesis
    unfolding getUpcomingBirthdays_def
    by (rule sorted_wrt_mono_rel [rotated]) (auto simp: set_array_sort intro: daysUntil_mono)
qed

theorem upcoming_sorted_by_days_until_witness:
  "getUpcomingBirthdays parse_ymd june1 [alice, heidi, grace, carol, erin] =
     [erin, grace, alice] \<and>
   map (daysUntil parse_ymd june1) [erin, grace, alice] = [Num 0, Num 1, Num 13] \<and>
   sorted_wrt (\<lambda>a b. num_le (daysUntil parse_ymd june1 a) (daysUntil parse_ymd june1 b))
     (getUpcomingBirthdays parse_ymd june1 [alice, heidi, grace, carol, erin])"
proof -
  have a: "getUpcomingBirthdays parse_ymd june1 [alice, heidi, grace, carol, erin] =
      [erin, grace, alice]"
    by code_simp
  have b: "map (daysUntil parse_ymd june1) [erin, grace, alice] = [Num 0, Num 1, Num 13]"
    by code_simp
  show ?thesis
    by (intro conjI a b upcoming_sorted_by_days_until)
qed

text \<open>
  The date that \<open>getUpcomingBirthdays\<close> and the card compute for a contact is always in
  the current year.
\<close>

theorem next_birthday_in_current_year:
  "nextBirthday parse today v = Valid d \<Longrightarrow> year_of d = year_of today"
  by (cases "dayjs parse today v") (auto simp: nextBirthday_eq)

theorem next_birthday_in_current_year_witness:
  "nextBirthday parse_ymd june1 (birthday frank) =
     Valid \<lparr>year_of = 2024, month_of = 5, date_of = 31, ms_of_day = 0\<rparr> \<and>
   year_of \<lparr>year_of = 2024, month_of = 5, date_of = 31, ms_of_day = 0\<rparr> = year_of june1"
proof -
  have h: "nextBirthday parse_ymd june1 (birthday frank) =
      Valid \<lparr>year_of = 2024, month_of = 5, date_of = 31, ms_of_day = 0\<rparr>"
    by code_simp
  from h next_birthday_in_current_year [OF h] show ?thesis by simp
qed

end
